theory Spec2Isabelle
  imports Main "HOL-Library.AList" "HOL-Library.Sublist"
begin

section \<open>The Meross manager: data model\<close>

text \<open>
  The embedding follows \<^verbatim>\<open>meross_iot/manager.py\<close> (class \<^verbatim>\<open>MerossManager\<close>).
  The manager is a record that every method takes and returns; what lies outside the file
  (the HTTP client, the MQTT client, the device factory, the device objects, the logger and
  the registered callbacks) is a record of collaborators, \<open>env\<close>. Every call that leaves
  the manager is appended to a trace together with the locks the calling thread holds at
  that moment.

  What is assumed of the collaborators: the HTTP client, the factory, the device objects and
  the logger return when called and do not call back into the manager; a registered callback
  calls \<^verbatim>\<open>register_event_handler\<close> and \<^verbatim>\<open>unregister_event_handler\<close> as its body
  says and then returns or raises. The model follows one thread; the two locks are kept so
  that the trace can say which of them the thread holds at each call.
\<close>

text \<open>A callback is a Python function object; it is identified by a number.\<close>

type_synonym callback = nat

text \<open>
  The exceptions the manager's own statements can raise: a missing dictionary key, an index
  out of range, an attribute read on \<^verbatim>\<open>None\<close>. \<open>CallbackError\<close> stands for
  anything a registered callback raises.
\<close>

datatype exn = KeyError string | IndexError | AttributeError | CallbackError string

text \<open>
  A descriptor is the dictionary returned by the HTTP API; a field is \<open>None\<close> when the
  key is not in the dictionary. Identifiers and type tags are strings, the online status
  is an integer.
\<close>

record descriptor =
  deviceType :: "string option"
  uuid :: "string option"
  subDeviceType :: "string option"
  subDeviceId :: "string option"
  onlineStatus :: "int option"

text \<open>
  A device object as the manager reads it: \<open>h_id\<close> is the identity of the Python object
  (two objects built from the same descriptor differ in it), \<open>h_classes\<close> the classes it
  is an instance of, the rest its attributes \<^verbatim>\<open>uuid\<close>, \<^verbatim>\<open>name\<close>, \<^verbatim>\<open>type\<close>
  and \<^verbatim>\<open>online\<close>.
\<close>

record handle =
  h_id :: nat
  h_classes :: "string list"
  h_uuid :: string
  h_name :: string
  h_type :: string
  h_online :: bool

datatype event = DeviceOnlineStatusEvent handle bool | ConnectionEvent string

type_synonym payload = "(string \<times> string) list"

record message =
  header :: "(string \<times> string) list option"
  payload :: "payload option"

datatype lock = DevicesLock | EventCallbacksLock

text \<open>What a callback does when it is invoked, besides returning or raising.\<close>

datatype cb_action = RegisterEventHandler callback | UnregisterEventHandler callback

text \<open>
  The calls that leave the manager. \<open>FireEvent\<close> marks each entry into
  \<^verbatim>\<open>_fire_event\<close>. The nat of \<open>BuildSubdeviceWrapper\<close> is the identity of the parent
  hub object, that of \<open>RegisterEventCallback\<close> and \<open>HandlePushNotification\<close> the identity
  of the device object called.
\<close>

datatype effect =
    ListDevices
  | ListHubSubdevices string
  | BuildWrapper string string
  | BuildSubdeviceWrapper string string nat
  | RegisterEventCallback nat callback
  | FireEvent event
  | InvokeCallback callback event
  | HandlePushNotification nat string payload bool
  | CheckStatus
  | LogWarn string
  | LogException exn

record env =
  list_devices :: "descriptor list"
  list_hub_subdevices :: "string \<Rightarrow> descriptor list"
  build_wrapper :: "string \<Rightarrow> string \<Rightarrow> descriptor \<Rightarrow> handle option"
  build_subdevice_wrapper :: "string \<Rightarrow> string \<Rightarrow> handle \<Rightarrow> descriptor \<Rightarrow> handle option"
  check_status :: bool
  callback_body :: "callback \<Rightarrow> event \<Rightarrow> cb_action list \<times> exn option"

text \<open>
  \<open>devices\<close> is the dictionary \<^verbatim>\<open>_devices\<close> in insertion order, \<open>event_callbacks\<close> the
  list \<^verbatim>\<open>_event_callbacks\<close>, \<open>held\<close> the locks the running thread holds (both are
  reentrant), \<open>allocated\<close> the number of device objects built so far.
\<close>

record manager =
  devices :: "(string \<times> handle) list"
  event_callbacks :: "callback list"
  held :: "lock list"
  allocated :: nat
  trace :: "(effect \<times> lock list) list"

definition init :: manager where
  "init = \<lparr>devices = [], event_callbacks = [], held = [], allocated = 0, trace = []\<rparr>"

section \<open>Python primitives\<close>

text \<open>
  \<^verbatim>\<open>str.lower\<close> on strings of ASCII characters, which is what the names and type
  names of devices are taken to be: the letters \<open>A\<close> to \<open>Z\<close> become \<open>a\<close> to \<open>z\<close>
  and every other character is left as it is. (Python also lowers the cased letters outside
  ASCII; they are outside this model.)
\<close>

definition lower_char :: "char \<Rightarrow> char" where
  "lower_char c =
     (case map_of (zip ''ABCDEFGHIJKLMNOPQRSTUVWXYZ'' ''abcdefghijklmnopqrstuvwxyz'') c of
        None \<Rightarrow> c
      | Some l \<Rightarrow> l)"

definition py_lower :: "string \<Rightarrow> string" where
  "py_lower s = map lower_char s"

text \<open>\<^verbatim>\<open>str.split(sep)\<close> with a one-character separator.\<close>

fun py_split :: "char \<Rightarrow> string \<Rightarrow> string list" where
  "py_split sep [] = [[]]"
| "py_split sep (c # cs) =
     (if c = sep then [] # py_split sep cs
      else (case py_split sep cs of [] \<Rightarrow> [[c]] | w # ws \<Rightarrow> (c # w) # ws))"

section \<open>Locks, trace and object construction\<close>

definition acquire :: "lock \<Rightarrow> manager \<Rightarrow> manager" where
  "acquire l s = s\<lparr>held := l # held s\<rparr>"

definition release :: "lock \<Rightarrow> manager \<Rightarrow> manager" where
  "release l s = s\<lparr>held := remove1 l (held s)\<rparr>"

definition log_effect :: "effect \<Rightarrow> manager \<Rightarrow> manager" where
  "log_effect e s = s\<lparr>trace := trace s @ [(e, held s)]\<rparr>"

text \<open>The factory's result becomes a new object: it gets the next identity.\<close>

definition construct :: "handle option \<Rightarrow> manager \<Rightarrow> handle option \<times> manager" where
  "construct built s =
     (case built of
        None \<Rightarrow> (None, s)
      | Some h \<Rightarrow> (Some (h\<lparr>h_id := allocated s\<rparr>), s\<lparr>allocated := Suc (allocated s)\<rparr>))"

definition isinstance :: "handle \<Rightarrow> string \<Rightarrow> bool" where
  "isinstance v clazz = (clazz \<in> set (h_classes v))"

definition not_started_msg :: string where
  "not_started_msg =
     ''The manager is not connected to the mqtt broker. Did you start the Meross manager?''"

definition malformed_msg :: string where
  "malformed_msg =
     ''Discovered device does not seem to be either a full device nor a subdevice.''"

section \<open>The event bus\<close>

definition register_event_handler :: "callback \<Rightarrow> manager \<Rightarrow> manager" where
  "register_event_handler c s =
     (let s1 = acquire EventCallbacksLock s;
          s2 = (if c \<in> set (event_callbacks s1) then s1
                else s1\<lparr>event_callbacks := event_callbacks s1 @ [c]\<rparr>)
      in release EventCallbacksLock s2)"

definition unregister_event_handler :: "callback \<Rightarrow> manager \<Rightarrow> manager" where
  "unregister_event_handler c s =
     (let s1 = acquire EventCallbacksLock s;
          s2 = (if c \<notin> set (event_callbacks s1) then s1
                else s1\<lparr>event_callbacks := remove1 c (event_callbacks s1)\<rparr>)
      in release EventCallbacksLock s2)"

fun perform :: "cb_action \<Rightarrow> manager \<Rightarrow> manager" where
  "perform (RegisterEventHandler c) s = register_event_handler c s"
| "perform (UnregisterEventHandler c) s = unregister_event_handler c s"

text \<open>
  \<^verbatim>\<open>for c in self._event_callbacks\<close> walks the list itself, by position: the iterator
  keeps an index and stops when the index reaches the length the list has at that moment.
  A callback may change the list, so the loop need not end; \<open>fuel\<close> bounds the number of
  callbacks invoked and \<open>None\<close> is running out of it. The bare \<^verbatim>\<open>except\<close> catches
  whatever the callback raises.
\<close>

fun fire_loop :: "nat \<Rightarrow> env \<Rightarrow> event \<Rightarrow> nat \<Rightarrow> manager \<Rightarrow> manager option" where
  "fire_loop fuel env ev i s =
     (if i < length (event_callbacks s) then
        (case fuel of
           0 \<Rightarrow> None
         | Suc fuel' \<Rightarrow>
             (let c = event_callbacks s ! i;
                  s1 = log_effect (InvokeCallback c ev) s;
                  s2 = foldl (\<lambda>s a. perform a s) s1 (fst (callback_body env c ev));
                  s3 = (case snd (callback_body env c ev) of
                          None \<Rightarrow> s2
                        | Some e \<Rightarrow> log_effect (LogException e) s2)
              in fire_loop fuel' env ev (Suc i) s3))
      else Some s)"

declare fire_loop.simps [simp del]

definition fire_event :: "nat \<Rightarrow> env \<Rightarrow> event \<Rightarrow> manager \<Rightarrow> manager option" where
  "fire_event fuel env ev s = fire_loop fuel env ev 0 (log_effect (FireEvent ev) s)"

section \<open>Discovery\<close>

text \<open>
  Lines 181 to 199 of \<^verbatim>\<open>_handle_device_discovered\<close>, which both branches share:
  \<open>d_id\<close> is the identifier read from the descriptor, \<open>device_id\<close> the key the object is
  stored under.
\<close>

definition add_if_new ::
  "nat \<Rightarrow> env \<Rightarrow> string \<Rightarrow> string \<Rightarrow> handle option \<Rightarrow> manager
     \<Rightarrow> (exn \<times> manager + handle option \<times> manager) option" where
  "add_if_new fuel env d_id device_id device s =
     (case device of
        None \<Rightarrow> Some (Inr (None, s))
      | Some d \<Rightarrow>
          (let s1 = acquire DevicesLock s;
               is_new = (d_id \<notin> fst ` set (devices s1));
               s2 = (if is_new then s1\<lparr>devices := AList.update device_id d (devices s1)\<rparr>
                     else s1);
               s3 = release DevicesLock s2
           in if is_new then
                (let s4 = acquire EventCallbacksLock s3;
                     s5 = foldl (\<lambda>s c. log_effect (RegisterEventCallback (h_id d) c) s) s4
                            (event_callbacks s4);
                     s6 = release EventCallbacksLock s5;
                     evt = DeviceOnlineStatusEvent d (h_online d)
                 in (case fire_event fuel env evt s6 of
                       None \<Rightarrow> None
                     | Some s7 \<Rightarrow> Some (Inr (Some d, s7))))
              else Some (Inr (Some d, s3))))"

definition handle_device_discovered ::
  "nat \<Rightarrow> env \<Rightarrow> descriptor \<Rightarrow> handle option \<Rightarrow> manager
     \<Rightarrow> (exn \<times> manager + handle option \<times> manager) option" where
  "handle_device_discovered fuel env dev parent_hub s =
     (if deviceType dev \<noteq> None \<and> uuid dev \<noteq> None then
        (let d_type = the (deviceType dev);
             d_id = the (uuid dev);
             device_id = d_id;
             (device, s1) = construct (build_wrapper env d_type d_id dev)
                              (log_effect (BuildWrapper d_type d_id) s)
         in add_if_new fuel env d_id device_id device s1)
      else if subDeviceType dev \<noteq> None \<and> subDeviceId dev \<noteq> None then
        (let d_type = the (subDeviceType dev);
             d_id = the (subDeviceId dev)
         in (case parent_hub of
               None \<Rightarrow> Some (Inl (AttributeError, s))
             | Some hub \<Rightarrow>
                 (let device_id = h_uuid hub @ '':'' @ d_id;
                      (device, s1) = construct (build_subdevice_wrapper env d_type d_id hub dev)
                                       (log_effect (BuildSubdeviceWrapper d_type d_id (h_id hub)) s)
                  in add_if_new fuel env d_id device_id device s1)))
      else Some (Inr (None, log_effect (LogWarn malformed_msg) s)))"

fun handle_subdevices ::
  "nat \<Rightarrow> env \<Rightarrow> handle \<Rightarrow> descriptor list \<Rightarrow> manager \<Rightarrow> (exn \<times> manager + manager) option" where
  "handle_subdevices fuel env hub [] s = Some (Inr s)"
| "handle_subdevices fuel env hub (subdev # rest) s =
     (case handle_device_discovered fuel env subdev (Some hub) s of
        None \<Rightarrow> None
      | Some (Inl e) \<Rightarrow> Some (Inl e)
      | Some (Inr (_, s1)) \<Rightarrow> handle_subdevices fuel env hub rest s1)"

fun discover_loop ::
  "nat \<Rightarrow> env \<Rightarrow> bool \<Rightarrow> descriptor list \<Rightarrow> manager \<Rightarrow> (exn \<times> manager + manager) option" where
  "discover_loop fuel env online_only [] s = Some (Inr s)"
| "discover_loop fuel env online_only (dev # rest) s =
     (case onlineStatus dev of
        None \<Rightarrow> Some (Inl (KeyError ''onlineStatus'', s))
      | Some online \<Rightarrow>
          if online_only \<and> online \<noteq> 1 then discover_loop fuel env online_only rest s
          else
            (case handle_device_discovered fuel env dev None s of
               None \<Rightarrow> None
             | Some (Inl e) \<Rightarrow> Some (Inl e)
             | Some (Inr (None, s1)) \<Rightarrow> discover_loop fuel env online_only rest s1
             | Some (Inr (Some discovered, s1)) \<Rightarrow>
                 if isinstance discovered ''GenericHub'' then
                   (case handle_subdevices fuel env discovered
                           (list_hub_subdevices env (h_uuid discovered))
                           (log_effect (ListHubSubdevices (h_uuid discovered)) s1) of
                      None \<Rightarrow> None
                    | Some (Inl e) \<Rightarrow> Some (Inl e)
                    | Some (Inr s2) \<Rightarrow> discover_loop fuel env online_only rest s2)
                 else discover_loop fuel env online_only rest s1))"

text \<open>
  \<^verbatim>\<open>_discover_devices\<close> returns \<^verbatim>\<open>self._devices\<close>: the field \<open>devices\<close> of the
  manager returned here. A run that raises leaves the manager as it is at the raise: the
  error comes with it.
\<close>

definition discover_devices :: "nat \<Rightarrow> env \<Rightarrow> bool \<Rightarrow> manager \<Rightarrow> (exn \<times> manager + manager) option" where
  "discover_devices fuel env online_only s =
     discover_loop fuel env online_only (list_devices env) (log_effect ListDevices s)"

text \<open>The manager a run leaves, whether it returned or raised.\<close>

definition manager_after :: "exn \<times> manager + manager \<Rightarrow> manager" where
  "manager_after r = (case r of Inl (e, s) \<Rightarrow> s | Inr s \<Rightarrow> s)"

section \<open>Routing of push notifications\<close>

definition dispatch_push_notification ::
  "nat \<Rightarrow> env \<Rightarrow> message \<Rightarrow> bool \<Rightarrow> manager \<Rightarrow> (exn \<times> manager + manager) option" where
  "dispatch_push_notification fuel env msg from_myself s =
     (case header msg of
        None \<Rightarrow> Some (Inl (KeyError ''header'', s))
      | Some hdr \<Rightarrow>
     (case payload msg of
        None \<Rightarrow> Some (Inl (KeyError ''payload'', s))
      | Some pl \<Rightarrow>
     (case map_of hdr ''from'' of
        None \<Rightarrow> Some (Inl (KeyError ''from'', s))
      | Some origin \<Rightarrow>
          (let segments = py_split (CHR ''/'') origin
           in if length segments \<le> 2 then Some (Inl (IndexError, s))
              else
                (let dev_uuid = segments ! 2;
                     s1 = acquire DevicesLock s;
                     device = map_of (devices s1) dev_uuid;
                     s2 = release DevicesLock s1
                 in (case device of
                       Some d \<Rightarrow>
                         (case map_of hdr ''namespace'' of
                            None \<Rightarrow> Some (Inl (KeyError ''namespace'', s2))
                          | Some namespace \<Rightarrow>
                              Some (Inr (log_effect
                                (HandlePushNotification (h_id d) namespace pl from_myself) s2)))
                     | None \<Rightarrow> discover_devices fuel env False s2))))))"

section \<open>Queries\<close>

definition ensure_started :: "env \<Rightarrow> manager \<Rightarrow> manager" where
  "ensure_started env s =
     (let s1 = log_effect CheckStatus s
      in if \<not> check_status env then log_effect (LogWarn not_started_msg) s1 else s1)"

definition get_device_by_uuid :: "env \<Rightarrow> string \<Rightarrow> manager \<Rightarrow> handle option \<times> manager" where
  "get_device_by_uuid env u s =
     (let s1 = ensure_started env s;
          s2 = acquire DevicesLock s1;
          dev = map_of (devices s2) u;
          s3 = release DevicesLock s2
      in (dev, s3))"

fun by_name_loop :: "string \<Rightarrow> (string \<times> handle) list \<Rightarrow> handle option" where
  "by_name_loop name [] = None"
| "by_name_loop name ((k, v) # rest) =
     (if py_lower (h_name v) = py_lower name then Some v else by_name_loop name rest)"

definition get_device_by_name :: "env \<Rightarrow> string \<Rightarrow> manager \<Rightarrow> handle option \<times> manager" where
  "get_device_by_name env name s =
     (let s1 = ensure_started env s;
          s2 = acquire DevicesLock s1;
          found = by_name_loop name (devices s2);
          s3 = release DevicesLock s2
      in (found, s3))"

definition get_supported_devices :: "env \<Rightarrow> manager \<Rightarrow> handle list \<times> manager" where
  "get_supported_devices env s =
     (let s1 = ensure_started env s in (map snd (devices s1), s1))"

fun by_kind_loop :: "string \<Rightarrow> (string \<times> handle) list \<Rightarrow> handle list \<Rightarrow> handle list" where
  "by_kind_loop clazz [] res = res"
| "by_kind_loop clazz ((k, v) # rest) res =
     by_kind_loop clazz rest (if isinstance v clazz then res @ [v] else res)"

definition get_devices_by_kind :: "env \<Rightarrow> string \<Rightarrow> manager \<Rightarrow> handle list \<times> manager" where
  "get_devices_by_kind env clazz s =
     (let s1 = ensure_started env s;
          s2 = acquire DevicesLock s1;
          res = by_kind_loop clazz (devices s2) [];
          s3 = release DevicesLock s2
      in (res, s3))"

fun by_type_loop :: "string \<Rightarrow> (string \<times> handle) list \<Rightarrow> handle list \<Rightarrow> handle list" where
  "by_type_loop type_name [] res = res"
| "by_type_loop type_name ((k, v) # rest) res =
     by_type_loop type_name rest
       (if py_lower (h_type v) = py_lower type_name then res @ [v] else res)"

definition get_devices_by_type :: "env \<Rightarrow> string \<Rightarrow> manager \<Rightarrow> handle list \<times> manager" where
  "get_devices_by_type env type_name s =
     (let s1 = ensure_started env s;
          s2 = acquire DevicesLock s1;
          res = by_type_loop type_name (devices s2) [];
          s3 = release DevicesLock s2
      in (res, s3))"

section \<open>Observations on the trace\<close>

text \<open>
  \<open>observe f\<close> reads a trace through \<open>f\<close>: \<open>observe invoked\<close> is the sequence of
  callback invocations, \<open>observe raised\<close> the sequence of exceptions logged by
  \<^verbatim>\<open>_fire_event\<close>. \<open>invocation\<close> is what one callback leaves in the trace when it
  changes nothing, \<open>silenced env\<close> is \<open>env\<close> with callbacks that do the same and never
  raise, and \<open>without_exception_log\<close> drops the logged exceptions from a trace.
\<close>

fun invoked :: "effect \<Rightarrow> (callback \<times> event) list" where
  "invoked (InvokeCallback c ev) = [(c, ev)]"
| "invoked _ = []"

fun raised :: "effect \<Rightarrow> exn list" where
  "raised (LogException e) = [e]"
| "raised _ = []"

definition observe :: "(effect \<Rightarrow> 'a list) \<Rightarrow> (effect \<times> lock list) list \<Rightarrow> 'a list" where
  "observe f tr = concat (map (\<lambda>entry. f (fst entry)) tr)"

fun is_register :: "cb_action \<Rightarrow> bool" where
  "is_register (RegisterEventHandler c) = True"
| "is_register (UnregisterEventHandler c) = False"

definition invocation ::
  "env \<Rightarrow> event \<Rightarrow> lock list \<Rightarrow> callback \<Rightarrow> (effect \<times> lock list) list" where
  "invocation env ev ls c =
     (InvokeCallback c ev, ls) #
     (case snd (callback_body env c ev) of None \<Rightarrow> [] | Some e \<Rightarrow> [(LogException e, ls)])"

definition silenced :: "env \<Rightarrow> env" where
  "silenced env = env\<lparr>callback_body := (\<lambda>c ev. (fst (callback_body env c ev), None))\<rparr>"

definition without_exception_log :: "manager \<Rightarrow> manager" where
  "without_exception_log s =
     s\<lparr>trace := filter (\<lambda>entry. raised (fst entry) = []) (trace s)\<rparr>"

text \<open>
  \<open>raised_by env (c, ev)\<close> is what callback \<open>c\<close> raises when it is invoked with
  \<open>ev\<close>. \<open>registers_within pool\<close> holds of the registration of a callback of
  \<open>pool\<close>, and of no other action.
\<close>

definition raised_by :: "env \<Rightarrow> callback \<times> event \<Rightarrow> exn list" where
  "raised_by env call =
     (case snd (callback_body env (fst call) (snd call)) of
        None \<Rightarrow> []
      | Some e \<Rightarrow> [e])"

fun registers_within :: "callback list \<Rightarrow> cb_action \<Rightarrow> bool" where
  "registers_within pool (RegisterEventHandler c) = (c \<in> set pool)"
| "registers_within pool (UnregisterEventHandler c) = False"

text \<open>
  Further readings of a trace: the uuids whose sub-devices were asked for, the listings of
  the devices, the events \<^verbatim>\<open>_fire_event\<close> was entered with, the notifications
  delivered to device objects, and the parents handed to the sub-device factory.
\<close>

fun hub_query :: "effect \<Rightarrow> string list" where
  "hub_query (ListHubSubdevices u) = [u]"
| "hub_query _ = []"

fun listing :: "effect \<Rightarrow> unit list" where
  "listing ListDevices = [()]"
| "listing _ = []"

fun fired :: "effect \<Rightarrow> event list" where
  "fired (FireEvent ev) = [ev]"
| "fired _ = []"

fun pushed :: "effect \<Rightarrow> (nat \<times> string \<times> payload \<times> bool) list" where
  "pushed (HandlePushNotification d ns pl fm) = [(d, ns, pl, fm)]"
| "pushed _ = []"

fun subdevice_parent :: "effect \<Rightarrow> nat list" where
  "subdevice_parent (BuildSubdeviceWrapper t i p) = [p]"
| "subdevice_parent _ = []"

text \<open>
  \<open>handler_entry h P\<close> holds of the trace entries that the handling of one descriptor
  can add when it starts with the locks \<open>h\<close> held: the calls are made with \<open>h\<close> held,
  except the registration of a callback on a device object, made with the lock of the
  callback list in addition; \<open>P\<close> holds of the parent handed to the sub-device factory.
  \<open>discovery_entry\<close> adds the sub-device listings, which a pass makes between
  descriptors.
\<close>

fun handler_entry :: "lock list \<Rightarrow> (nat \<Rightarrow> bool) \<Rightarrow> effect \<times> lock list \<Rightarrow> bool" where
  "handler_entry h P (RegisterEventCallback d c, ls) = (ls = EventCallbacksLock # h)"
| "handler_entry h P (InvokeCallback c ev, ls) = (ls = h)"
| "handler_entry h P (LogException e, ls) = (ls = h)"
| "handler_entry h P (FireEvent ev, ls) = (ls = h)"
| "handler_entry h P (BuildWrapper t u, ls) = (ls = h)"
| "handler_entry h P (BuildSubdeviceWrapper t i p, ls) = (ls = h \<and> P p)"
| "handler_entry h P (LogWarn m, ls) = (ls = h)"
| "handler_entry h P (ListDevices, ls) = False"
| "handler_entry h P (ListHubSubdevices u, ls) = False"
| "handler_entry h P (HandlePushNotification d ns pl fm, ls) = False"
| "handler_entry h P (CheckStatus, ls) = False"

fun discovery_entry :: "lock list \<Rightarrow> (nat \<Rightarrow> bool) \<Rightarrow> effect \<times> lock list \<Rightarrow> bool" where
  "discovery_entry h P (ListHubSubdevices u, ls) = (ls = h)"
| "discovery_entry h P (e, ls) = handler_entry h P (e, ls)"

text \<open>
  \<open>grows Q s s'\<close>: the manager \<open>s'\<close> holds the locks of \<open>s\<close>, has built no fewer
  objects, and its trace is that of \<open>s\<close> followed by entries that satisfy \<open>Q\<close>.
\<close>

definition grows :: "(effect \<times> lock list \<Rightarrow> bool) \<Rightarrow> manager \<Rightarrow> manager \<Rightarrow> bool" where
  "grows Q s s' =
     (held s' = held s \<and> allocated s \<le> allocated s'
      \<and> (\<exists>new. trace s' = trace s @ new \<and> list_all Q new))"

text \<open>
  The uuid whose sub-devices a pass asks for when it meets the descriptor \<open>dev\<close>, if
  any: it is read from the descriptor and the factory alone. \<open>pass_entries\<close> describes
  what the loop of a pass over the descriptors \<open>devs\<close> adds to the trace.
\<close>

definition queried_hub :: "env \<Rightarrow> bool \<Rightarrow> descriptor \<Rightarrow> string option" where
  "queried_hub env online_only dev =
     (if online_only \<and> onlineStatus dev \<noteq> Some 1 then None
      else if deviceType dev \<noteq> None \<and> uuid dev \<noteq> None then
        (case build_wrapper env (the (deviceType dev)) (the (uuid dev)) dev of
           None \<Rightarrow> None
         | Some h \<Rightarrow> if isinstance h ''GenericHub'' then Some (h_uuid h) else None)
      else None)"

definition pass_entries ::
  "env \<Rightarrow> bool \<Rightarrow> descriptor list \<Rightarrow> manager \<Rightarrow> manager \<Rightarrow> bool" where
  "pass_entries env online_only devs s s' =
     (held s' = held s \<and> allocated s \<le> allocated s'
      \<and> (\<exists>new. trace s' = trace s @ new
             \<and> list_all (discovery_entry (held s) (\<lambda>p. allocated s \<le> p)) new
             \<and> observe hub_query new = List.map_filter (queried_hub env online_only) devs))"

text \<open>
  \<open>observe discovery_call\<close> reads from a trace the calls of a pass to the HTTP client and
  to the two factories, and its warnings. The definitions that follow say what each step
  of a pass that returns does with them, as the code reads it off the descriptors, the
  factories and the number \<open>n\<close> of objects built so far; the event bus plays no part.
  \<open>handler_call dev parent_hub\<close> is the call the handler makes for the descriptor
  \<open>dev\<close>, \<open>object_built\<close> the object it returns (the factory's, with the next
  identity), \<open>objects_after\<close> the number of objects built once it has returned and
  \<open>directory_after\<close> the directory it leaves: the object is stored under the uuid, or
  under the composite key for a sub-device, unless the identifier tested on line 186 is a
  key already. \<open>subdevice_calls\<close>, \<open>objects_after_subdevices\<close> and
  \<open>directory_after_subdevices\<close> do the same for the loop of lines 154 and 155 over the
  sub-devices of \<open>hub\<close>, and \<open>pass_calls\<close> and \<open>pass_directory\<close> for the loop of
  lines 139 to 155 over the listing.
\<close>

fun discovery_call :: "effect \<Rightarrow> effect list" where
  "discovery_call ListDevices = [ListDevices]"
| "discovery_call (ListHubSubdevices u) = [ListHubSubdevices u]"
| "discovery_call (BuildWrapper t u) = [BuildWrapper t u]"
| "discovery_call (BuildSubdeviceWrapper t i p) = [BuildSubdeviceWrapper t i p]"
| "discovery_call (LogWarn m) = [LogWarn m]"
| "discovery_call _ = []"

definition handler_call :: "descriptor \<Rightarrow> handle option \<Rightarrow> effect list" where
  "handler_call dev parent_hub =
     (if deviceType dev \<noteq> None \<and> uuid dev \<noteq> None then
        [BuildWrapper (the (deviceType dev)) (the (uuid dev))]
      else if subDeviceType dev \<noteq> None \<and> subDeviceId dev \<noteq> None then
        (case parent_hub of
           None \<Rightarrow> []
         | Some hub \<Rightarrow>
             [BuildSubdeviceWrapper (the (subDeviceType dev)) (the (subDeviceId dev)) (h_id hub)])
      else [LogWarn malformed_msg])"

definition object_built :: "env \<Rightarrow> descriptor \<Rightarrow> handle option \<Rightarrow> nat \<Rightarrow> handle option" where
  "object_built env dev parent_hub n =
     map_option (\<lambda>h. h\<lparr>h_id := n\<rparr>)
       (if deviceType dev \<noteq> None \<and> uuid dev \<noteq> None then
          build_wrapper env (the (deviceType dev)) (the (uuid dev)) dev
        else if subDeviceType dev \<noteq> None \<and> subDeviceId dev \<noteq> None then
          (case parent_hub of
             None \<Rightarrow> None
           | Some hub \<Rightarrow>
               build_subdevice_wrapper env (the (subDeviceType dev)) (the (subDeviceId dev))
                 hub dev)
        else None)"

definition objects_after :: "env \<Rightarrow> descriptor \<Rightarrow> handle option \<Rightarrow> nat \<Rightarrow> nat" where
  "objects_after env dev parent_hub n =
     (case object_built env dev parent_hub n of None \<Rightarrow> n | Some d \<Rightarrow> Suc n)"

definition directory_after ::
  "env \<Rightarrow> descriptor \<Rightarrow> handle option \<Rightarrow> nat \<Rightarrow> (string \<times> handle) list
     \<Rightarrow> (string \<times> handle) list" where
  "directory_after env dev parent_hub n dir =
     (case object_built env dev parent_hub n of
        None \<Rightarrow> dir
      | Some d \<Rightarrow>
          if deviceType dev \<noteq> None \<and> uuid dev \<noteq> None then
            (if the (uuid dev) \<in> fst ` set dir then dir
             else AList.update (the (uuid dev)) d dir)
          else
            (if the (subDeviceId dev) \<in> fst ` set dir then dir
             else AList.update
                    (h_uuid (the parent_hub) @ '':'' @ the (subDeviceId dev)) d dir))"

fun subdevice_calls :: "handle \<Rightarrow> descriptor list \<Rightarrow> effect list" where
  "subdevice_calls hub [] = []"
| "subdevice_calls hub (subdev # rest) =
     handler_call subdev (Some hub) @ subdevice_calls hub rest"

fun objects_after_subdevices :: "env \<Rightarrow> handle \<Rightarrow> descriptor list \<Rightarrow> nat \<Rightarrow> nat" where
  "objects_after_subdevices env hub [] n = n"
| "objects_after_subdevices env hub (subdev # rest) n =
     objects_after_subdevices env hub rest (objects_after env subdev (Some hub) n)"

fun directory_after_subdevices ::
  "env \<Rightarrow> handle \<Rightarrow> descriptor list \<Rightarrow> nat \<Rightarrow> (string \<times> handle) list
     \<Rightarrow> (string \<times> handle) list" where
  "directory_after_subdevices env hub [] n dir = dir"
| "directory_after_subdevices env hub (subdev # rest) n dir =
     directory_after_subdevices env hub rest (objects_after env subdev (Some hub) n)
       (directory_after env subdev (Some hub) n dir)"

fun pass_calls :: "env \<Rightarrow> bool \<Rightarrow> descriptor list \<Rightarrow> nat \<Rightarrow> effect list" where
  "pass_calls env online_only [] n = []"
| "pass_calls env online_only (dev # rest) n =
     (if online_only \<and> onlineStatus dev \<noteq> Some 1 then pass_calls env online_only rest n
      else
        handler_call dev None @
        (case object_built env dev None n of
           None \<Rightarrow> pass_calls env online_only rest n
         | Some hub \<Rightarrow>
             if isinstance hub ''GenericHub'' then
               ListHubSubdevices (h_uuid hub) #
               subdevice_calls hub (list_hub_subdevices env (h_uuid hub)) @
               pass_calls env online_only rest
                 (objects_after_subdevices env hub (list_hub_subdevices env (h_uuid hub))
                    (Suc n))
             else pass_calls env online_only rest (Suc n)))"

fun pass_directory ::
  "env \<Rightarrow> bool \<Rightarrow> descriptor list \<Rightarrow> nat \<Rightarrow> (string \<times> handle) list
     \<Rightarrow> (string \<times> handle) list" where
  "pass_directory env online_only [] n dir = dir"
| "pass_directory env online_only (dev # rest) n dir =
     (if online_only \<and> onlineStatus dev \<noteq> Some 1 then pass_directory env online_only rest n dir
      else
        (case object_built env dev None n of
           None \<Rightarrow> pass_directory env online_only rest n dir
         | Some hub \<Rightarrow>
             if isinstance hub ''GenericHub'' then
               pass_directory env online_only rest
                 (objects_after_subdevices env hub (list_hub_subdevices env (h_uuid hub))
                    (Suc n))
                 (directory_after_subdevices env hub (list_hub_subdevices env (h_uuid hub))
                    (Suc n) (directory_after env dev None n dir))
             else pass_directory env online_only rest (Suc n)
                    (directory_after env dev None n dir)))"


section \<open>Example worlds\<close>

text \<open>
  Concrete collaborators for the examples: a factory that builds a hub object for the
  device type \<open>msh300\<close> and a plug object for every other type, as the device factory of
  the library does from the type's name, and descriptors of the shapes the HTTP API returns.
\<close>

definition hub_object :: "string \<Rightarrow> handle" where
  "hub_object u =
     \<lparr>h_id = 0, h_classes = [''GenericHub'', ''AbstractMerossDevice''], h_uuid = u,
      h_name = ''Hub'', h_type = ''msh300'', h_online = True\<rparr>"

definition plug_object :: "string \<Rightarrow> string \<Rightarrow> handle" where
  "plug_object t u =
     \<lparr>h_id = 0, h_classes = [''GenericPlug'', ''AbstractMerossDevice''], h_uuid = u,
      h_name = ''Lamp'', h_type = t, h_online = True\<rparr>"

definition valve_object :: "string \<Rightarrow> string \<Rightarrow> handle" where
  "valve_object t i =
     \<lparr>h_id = 0, h_classes = [''GenericSubDevice'', ''AbstractMerossDevice''], h_uuid = i,
      h_name = ''Valve'', h_type = t, h_online = True\<rparr>"

definition factory :: "string \<Rightarrow> string \<Rightarrow> descriptor \<Rightarrow> handle option" where
  "factory t u d = (if t = ''msh300'' then Some (hub_object u) else Some (plug_object t u))"

definition subdevice_factory ::
  "string \<Rightarrow> string \<Rightarrow> handle \<Rightarrow> descriptor \<Rightarrow> handle option" where
  "subdevice_factory t i hub d = Some (valve_object t i)"

definition device_descr :: "string \<Rightarrow> string \<Rightarrow> descriptor" where
  "device_descr t u =
     \<lparr>deviceType = Some t, uuid = Some u, subDeviceType = None, subDeviceId = None,
      onlineStatus = Some 1\<rparr>"

definition subdevice_descr :: "string \<Rightarrow> descriptor" where
  "subdevice_descr i =
     \<lparr>deviceType = None, uuid = None, subDeviceType = Some ''mts100v3'', subDeviceId = Some i,
      onlineStatus = None\<rparr>"

definition both_shapes_descr :: descriptor where
  "both_shapes_descr =
     \<lparr>deviceType = Some ''mss310'', uuid = Some ''U1'', subDeviceType = Some ''mts100v3'',
      subDeviceId = Some ''S1'', onlineStatus = Some 1\<rparr>"

definition shapeless_descr :: descriptor where
  "shapeless_descr =
     \<lparr>deviceType = Some ''mss310'', uuid = None, subDeviceType = None,
      subDeviceId = Some ''S1'', onlineStatus = Some 1\<rparr>"

definition quiet :: "callback \<Rightarrow> event \<Rightarrow> cb_action list \<times> exn option" where
  "quiet c ev = ([], None)"

definition world ::
  "descriptor list \<Rightarrow> (string \<Rightarrow> descriptor list)
     \<Rightarrow> (callback \<Rightarrow> event \<Rightarrow> cb_action list \<times> exn option) \<Rightarrow> bool \<Rightarrow> env" where
  "world devs subs bodies subscribed =
     \<lparr>list_devices = devs, list_hub_subdevices = subs, build_wrapper = factory,
      build_subdevice_wrapper = subdevice_factory, check_status = subscribed,
      callback_body = bodies\<rparr>"

definition no_subdevices :: "string \<Rightarrow> descriptor list" where
  "no_subdevices u = []"

text \<open>A directory holding a plug named \<open>Lamp\<close> and a hub named \<open>Hub\<close>.\<close>

definition lamp_and_hub :: manager where
  "lamp_and_hub =
     init\<lparr>devices := [(''U1'', (plug_object ''mss310'' ''U1'')\<lparr>h_id := 0\<rparr>),
                      (''H1'', (hub_object ''H1'')\<lparr>h_id := 1\<rparr>)],
          allocated := 2\<rparr>"

text \<open>
  Callback bodies: callback 0 registers callback 2; callback 0 unregisters itself; callback
  0 unregisters itself and raises; callback 0 raises; callback 0 registers callback 2 and
  raises. The other callbacks do nothing.
\<close>

definition registering_body :: "callback \<Rightarrow> event \<Rightarrow> cb_action list \<times> exn option" where
  "registering_body c ev = (if c = 0 then ([RegisterEventHandler 2], None) else ([], None))"

definition leaving_body :: "callback \<Rightarrow> event \<Rightarrow> cb_action list \<times> exn option" where
  "leaving_body c ev = (if c = 0 then ([UnregisterEventHandler 0], None) else ([], None))"

definition leaving_failing_body ::
  "callback \<Rightarrow> event \<Rightarrow> cb_action list \<times> exn option" where
  "leaving_failing_body c ev =
     (if c = 0 then ([UnregisterEventHandler 0], Some (CallbackError ''boom'')) else ([], None))"

definition failing_body :: "callback \<Rightarrow> event \<Rightarrow> cb_action list \<times> exn option" where
  "failing_body c ev = (if c = 0 then ([], Some (CallbackError ''boom'')) else ([], None))"

definition registering_failing_body ::
  "callback \<Rightarrow> event \<Rightarrow> cb_action list \<times> exn option" where
  "registering_failing_body c ev =
     (if c = 0 then ([RegisterEventHandler 2], Some (CallbackError ''boom'')) else ([], None))"

definition two_observers :: manager where
  "two_observers = init\<lparr>event_callbacks := [0, 1]\<rparr>"

text \<open>
  \<open>returned r\<close> is the manager a run returned. In \<open>hub_world\<close> the listing holds one
  hub, \<open>H1\<close>, which reports one sub-device, \<open>S1\<close>; two passes are run on it from the
  empty manager. In \<open>clash_world\<close> two hubs, \<open>A\<close> and \<open>B\<close>, each report a sub-device
  whose local identifier is \<open>A\<close>; in \<open>two_hubs_world\<close> two hubs each report a sub-device
  \<open>S1\<close>.
\<close>

definition returned :: "(exn \<times> manager + manager) option \<Rightarrow> manager" where
  "returned r = (case r of Some (Inr s) \<Rightarrow> s | _ \<Rightarrow> init)"

definition hub_world :: env where
  "hub_world =
     world [device_descr ''msh300'' ''H1''] (\<lambda>u. [subdevice_descr ''S1'']) quiet True"

definition after_first_pass :: manager where
  "after_first_pass = returned (discover_devices 5 hub_world False init)"

definition after_second_pass :: manager where
  "after_second_pass = returned (discover_devices 5 hub_world False after_first_pass)"

definition clash_world :: env where
  "clash_world = world [device_descr ''msh300'' ''A'', device_descr ''msh300'' ''B'']
                   (\<lambda>u. [subdevice_descr ''A'']) quiet True"

definition two_hubs_world :: env where
  "two_hubs_world = world [device_descr ''msh300'' ''H1'', device_descr ''msh300'' ''H2'']
                   (\<lambda>u. [subdevice_descr ''S1'']) quiet True"

text \<open>
  A sub-device descriptor as a top-level listing could return it, a push notification with
  the origin path given, the same notification without its payload, without the namespace
  in its header and without the origin in its header, a notification without a header, a
  listing of one plug, and a manager with callback 7 registered.
\<close>

definition orphan_descr :: descriptor where
  "orphan_descr = (subdevice_descr ''S1'')\<lparr>onlineStatus := Some 1\<rparr>"

definition push :: "string \<Rightarrow> message" where
  "push origin =
     \<lparr>header = Some [(''from'', origin), (''namespace'', ''Appliance.Control.ToggleX'')],
      payload = Some [(''onoff'', ''1'')]\<rparr>"

definition push_without_payload :: "string \<Rightarrow> message" where
  "push_without_payload origin =
     \<lparr>header = Some [(''from'', origin), (''namespace'', ''Appliance.Control.ToggleX'')],
      payload = None\<rparr>"

definition push_without_namespace :: "string \<Rightarrow> message" where
  "push_without_namespace origin =
     \<lparr>header = Some [(''from'', origin)], payload = Some [(''onoff'', ''1'')]\<rparr>"

definition push_without_origin :: message where
  "push_without_origin =
     \<lparr>header = Some [(''namespace'', ''Appliance.Control.ToggleX'')],
      payload = Some [(''onoff'', ''1'')]\<rparr>"

definition push_without_header :: message where
  "push_without_header = \<lparr>header = None, payload = Some [(''onoff'', ''1'')]\<rparr>"

definition plug_world :: env where
  "plug_world = world [device_descr ''mss310'' ''U1''] no_subdevices quiet True"

definition one_observer :: manager where
  "one_observer = init\<lparr>event_callbacks := [7]\<rparr>"

section \<open>Basic facts\<close>

lemma release_acquire [simp]: "release l (acquire l s) = s"
  by (simp add: release_def acquire_def)

lemma log_effect_fields [simp]:
  "devices (log_effect e s) = devices s"
  "event_callbacks (log_effect e s) = event_callbacks s"
  "held (log_effect e s) = held s"
  "allocated (log_effect e s) = allocated s"
  "trace (log_effect e s) = trace s @ [(e, held s)]"
  by (simp_all add: log_effect_def)

lemma acquire_fields [simp]:
  "devices (acquire l s) = devices s"
  "event_callbacks (acquire l s) = event_callbacks s"
  "held (acquire l s) = l # held s"
  "allocated (acquire l s) = allocated s"
  "trace (acquire l s) = trace s"
  by (simp_all add: acquire_def)

lemma release_fields [simp]:
  "devices (release l s) = devices s"
  "event_callbacks (release l s) = event_callbacks s"
  "held (release l s) = remove1 l (held s)"
  "allocated (release l s) = allocated s"
  "trace (release l s) = trace s"
  by (simp_all add: release_def)

lemma log_effect_inject: "log_effect e s = log_effect e' s \<Longrightarrow> e = e'"
proof -
  assume "log_effect e s = log_effect e' s"
  then have "trace (log_effect e s) = trace (log_effect e' s)" by simp
  then show ?thesis by simp
qed

text \<open>The definitions an example unfolds when it is run.\<close>

lemmas world_defs = world_def factory_def subdevice_factory_def hub_object_def plug_object_def
  valve_object_def device_descr_def subdevice_descr_def quiet_def no_subdevices_def init_def

lemmas run_defs = discover_devices_def handle_device_discovered_def add_if_new_def
  construct_def fire_event_def fire_loop.simps Let_def isinstance_def
  register_event_handler_def unregister_event_handler_def dispatch_push_notification_def
  log_effect_def acquire_def release_def

section \<open>Queries while the client is not subscribed\<close>

lemma by_name_loop_find:
  "by_name_loop name kvs =
     map_option snd (find (\<lambda>kv. py_lower (h_name (snd kv)) = py_lower name) kvs)"
  by (induction kvs) auto

lemma by_kind_loop_filter:
  "by_kind_loop clazz kvs res = res @ filter (\<lambda>v. isinstance v clazz) (map snd kvs)"
  by (induction kvs arbitrary: res) auto

lemma by_type_loop_filter:
  "by_type_loop t kvs res =
     res @ filter (\<lambda>v. py_lower (h_type v) = py_lower t) (map snd kvs)"
  by (induction kvs arbitrary: res) auto

lemma ensure_started_not_subscribed:
  "\<not> check_status env \<Longrightarrow>
   ensure_started env s =
     s\<lparr>trace := trace s @ [(CheckStatus, held s), (LogWarn not_started_msg, held s)]\<rparr>"
  by (simp add: ensure_started_def log_effect_def)

text \<open>
  Claim C8. When the transport's connection state is not "subscribed", each of the five
  queries returns the value computed from the directory as it stands (the entry under the
  key; the first entry, in directory order, whose lower-cased name is the lower-cased
  argument; all handles; the handles that are instances of the class; the handles whose
  lower-cased type is the lower-cased argument). The manager it leaves differs from the one
  it found only by two trace entries, the status check and the warning: the directory, the
  callbacks and the locks are unchanged. The queries have no error branch (the source has
  no raising statement in them), so each returns a value.
\<close>

theorem queries_when_not_subscribed:
  assumes "\<not> check_status env"
  shows "get_device_by_uuid env u s =
           (map_of (devices s) u,
            s\<lparr>trace := trace s @ [(CheckStatus, held s), (LogWarn not_started_msg, held s)]\<rparr>)
       \<and> get_device_by_name env name s =
           (map_option snd
              (find (\<lambda>kv. py_lower (h_name (snd kv)) = py_lower name) (devices s)),
            s\<lparr>trace := trace s @ [(CheckStatus, held s), (LogWarn not_started_msg, held s)]\<rparr>)
       \<and> get_supported_devices env s =
           (map snd (devices s),
            s\<lparr>trace := trace s @ [(CheckStatus, held s), (LogWarn not_started_msg, held s)]\<rparr>)
       \<and> get_devices_by_kind env clazz s =
           (filter (\<lambda>v. isinstance v clazz) (map snd (devices s)),
            s\<lparr>trace := trace s @ [(CheckStatus, held s), (LogWarn not_started_msg, held s)]\<rparr>)
       \<and> get_devices_by_type env type_name s =
           (filter (\<lambda>v. py_lower (h_type v) = py_lower type_name) (map snd (devices s)),
            s\<lparr>trace := trace s @ [(CheckStatus, held s), (LogWarn not_started_msg, held s)]\<rparr>)"
  using assms
  by (simp add: get_device_by_uuid_def get_device_by_name_def get_supported_devices_def
      get_devices_by_kind_def get_devices_by_type_def ensure_started_not_subscribed
      by_name_loop_find by_kind_loop_filter by_type_loop_filter Let_def)

theorem queries_when_not_subscribed_witness:
  "\<not> check_status (world [] no_subdevices quiet False)
   \<and> fst (get_device_by_name (world [] no_subdevices quiet False) ''LAMP'' lamp_and_hub)
       = Some ((plug_object ''mss310'' ''U1'')\<lparr>h_id := 0\<rparr>)
   \<and> fst (get_devices_by_kind (world [] no_subdevices quiet False) ''GenericHub''
            lamp_and_hub)
       = [(hub_object ''H1'')\<lparr>h_id := 1\<rparr>]
   \<and> devices (snd (get_devices_by_type (world [] no_subdevices quiet False) ''MSH300''
                     lamp_and_hub))
       = devices lamp_and_hub
   \<and> map fst (trace (snd (get_device_by_uuid (world [] no_subdevices quiet False) ''H1''
                            lamp_and_hub)))
       = [CheckStatus, LogWarn not_started_msg]"
  using queries_when_not_subscribed
          [of "world [] no_subdevices quiet False" "''H1''" lamp_and_hub "''LAMP''"
              "''GenericHub''" "''MSH300''"]
  by (simp add: world_defs lamp_and_hub_def py_lower_def lower_char_def isinstance_def)

section \<open>The handler of one descriptor\<close>

lemma add_if_new_None:
  "add_if_new fuel env d_id device_id device s = Some (Inr (None, s'))
     \<longleftrightarrow> device = None \<and> s' = s"
  by (auto simp: add_if_new_def Let_def split: option.splits)

text \<open>
  Claim C10, as amended. The test for the full-device shape comes first. A descriptor that
  carries the sub-device shape and not the full-device shape, handled with no parent hub,
  makes the handler raise (the attribute \<^verbatim>\<open>uuid\<close> is read on \<^verbatim>\<open>None\<close>) before
  anything is built or logged. The handler logs the warning and returns \<^verbatim>\<open>None\<close>
  exactly for the descriptors that match neither shape, whatever the parent.
\<close>

theorem subdevice_shape_without_parent:
  "(subDeviceType dev \<noteq> None \<and> subDeviceId dev \<noteq> None
      \<and> \<not> (deviceType dev \<noteq> None \<and> uuid dev \<noteq> None)
     \<longrightarrow> handle_device_discovered fuel env dev None s = Some (Inl (AttributeError, s)))
   \<and> ((handle_device_discovered fuel env dev parent_hub s
          = Some (Inr (None, log_effect (LogWarn malformed_msg) s)))
       = (\<not> (deviceType dev \<noteq> None \<and> uuid dev \<noteq> None)
          \<and> \<not> (subDeviceType dev \<noteq> None \<and> subDeviceId dev \<noteq> None)))"
proof -
  have full: "handle_device_discovered fuel env dev parent_hub s
                \<noteq> Some (Inr (None, log_effect (LogWarn malformed_msg) s))"
    if "deviceType dev \<noteq> None \<and> uuid dev \<noteq> None"
    using that
    by (auto simp: handle_device_discovered_def Let_def construct_def add_if_new_None
        dest: log_effect_inject split: option.splits prod.splits)
  have sub: "handle_device_discovered fuel env dev parent_hub s
                \<noteq> Some (Inr (None, log_effect (LogWarn malformed_msg) s))"
    if "subDeviceType dev \<noteq> None \<and> subDeviceId dev \<noteq> None"
    using that full
    by (auto simp: handle_device_discovered_def Let_def construct_def add_if_new_None
        dest: log_effect_inject split: option.splits prod.splits)
  show ?thesis
    using full sub by (auto simp: handle_device_discovered_def)
qed

theorem subdevice_shape_without_parent_witness:
  "subDeviceType (subdevice_descr ''S1'') \<noteq> None
   \<and> subDeviceId (subdevice_descr ''S1'') \<noteq> None
   \<and> \<not> (deviceType (subdevice_descr ''S1'') \<noteq> None
         \<and> uuid (subdevice_descr ''S1'') \<noteq> None)
   \<and> handle_device_discovered 1 (world [] no_subdevices quiet True) (subdevice_descr ''S1'')
         None init
       = Some (Inl (AttributeError, init))
   \<and> handle_device_discovered 1 (world [] no_subdevices quiet True) shapeless_descr None init
       = Some (Inr (None, log_effect (LogWarn malformed_msg) init))"
  using subdevice_shape_without_parent
          [of "subdevice_descr ''S1''" 1 "world [] no_subdevices quiet True" init None]
        subdevice_shape_without_parent
          [of shapeless_descr 1 "world [] no_subdevices quiet True" init None]
  by (simp add: subdevice_descr_def shapeless_descr_def)

text \<open>
  The claim as it was stated fails on a descriptor that carries both shapes: with no parent
  hub it is handled as a full device and the handler returns the object built for it.
\<close>

theorem both_shapes_counterexample:
  "subDeviceType both_shapes_descr \<noteq> None \<and> subDeviceId both_shapes_descr \<noteq> None
   \<and> map_option (map_sum id (map_option h_uuid \<circ> fst))
       (handle_device_discovered 1 (world [] no_subdevices quiet True) both_shapes_descr
          None init)
       = Some (Inr (Some ''U1''))"
  by (simp add: both_shapes_descr_def world_defs run_defs)

section \<open>The event bus: fan-out\<close>

lemma observe_append [simp]: "observe f (a @ b) = observe f a @ observe f b"
  by (simp add: observe_def)

lemma observe_Nil [simp]: "observe f [] = []"
  by (simp add: observe_def)

lemma observe_Cons [simp]: "observe f (x # tr) = f (fst x) @ observe f tr"
  by (simp add: observe_def)

text \<open>
  The loop when no callback on the list changes the list: it ends within as many steps as
  callbacks remain, and the trace grows by the invocation of each, in order.
\<close>

lemma fire_loop_frame:
  assumes "\<forall>c\<in>set (event_callbacks s). fst (callback_body env c ev) = []"
    and "length (event_callbacks s) - i \<le> fuel"
  shows "fire_loop fuel env ev i s =
           Some (s\<lparr>trace := trace s @ concat (map (invocation env ev (held s))
                                                  (drop i (event_callbacks s)))\<rparr>)"
  using assms
proof (induction fuel arbitrary: i s)
  case 0
  then show ?case by (simp add: fire_loop.simps)
next
  case (Suc fuel)
  show ?case
  proof (cases "i < length (event_callbacks s)")
    case False
    then show ?thesis by (simp add: fire_loop.simps)
  next
    case True
    let ?c = "event_callbacks s ! i"
    let ?s3 = "s\<lparr>trace := trace s @ invocation env ev (held s) ?c\<rparr>"
    have no_acts: "fst (callback_body env ?c ev) = []"
      using Suc.prems(1) True by simp
    have step: "fire_loop (Suc fuel) env ev i s = fire_loop fuel env ev (Suc i) ?s3"
      by (subst fire_loop.simps)
         (cases "snd (callback_body env ?c ev)";
          simp add: True no_acts Let_def log_effect_def invocation_def)
    have "fire_loop fuel env ev (Suc i) ?s3 =
            Some (?s3\<lparr>trace := trace ?s3 @ concat (map (invocation env ev (held ?s3))
                                                       (drop (Suc i) (event_callbacks ?s3)))\<rparr>)"
      using Suc.prems True by (intro Suc.IH) auto
    then show ?thesis
      using True by (simp add: step Cons_nth_drop_Suc [symmetric])
  qed
qed

lemma invocation_invoked:
  "observe invoked (concat (map (invocation env ev ls) cs)) = map (\<lambda>c. (c, ev)) cs"
  by (induction cs) (auto simp: invocation_def split: option.splits)

lemma invocation_raised:
  "observe raised (concat (map (invocation env ev ls) cs))
     = concat (map (\<lambda>c. case snd (callback_body env c ev) of None \<Rightarrow> [] | Some e \<Rightarrow> [e]) cs)"
  by (induction cs) (auto simp: invocation_def split: option.splits)

text \<open>
  The loop when callbacks register further callbacks: the list only grows, and when the
  loop ends every callback from position \<open>i\<close> of the final list on has been invoked.
\<close>

lemma perform_fields [simp]:
  "devices (perform a s) = devices s"
  "held (perform a s) = held s"
  "allocated (perform a s) = allocated s"
  "trace (perform a s) = trace s"
  by (cases a; simp add: register_event_handler_def unregister_event_handler_def Let_def)+

lemma foldl_perform_fields [simp]:
  "devices (foldl (\<lambda>s a. perform a s) s acts) = devices s"
  "held (foldl (\<lambda>s a. perform a s) s acts) = held s"
  "allocated (foldl (\<lambda>s a. perform a s) s acts) = allocated s"
  "trace (foldl (\<lambda>s a. perform a s) s acts) = trace s"
  by (induction acts arbitrary: s; simp)+

lemma perform_register_prefix:
  "is_register a \<Longrightarrow> prefix (event_callbacks s) (event_callbacks (perform a s))"
  by (cases a) (auto simp: register_event_handler_def Let_def)

lemma foldl_register_prefix:
  "list_all is_register acts \<Longrightarrow>
   prefix (event_callbacks s) (event_callbacks (foldl (\<lambda>s a. perform a s) s acts))"
proof (induction acts arbitrary: s)
  case Nil
  then show ?case by simp
next
  case (Cons a acts)
  have "prefix (event_callbacks s) (event_callbacks (perform a s))"
    using Cons.prems by (simp add: perform_register_prefix)
  moreover have "prefix (event_callbacks (perform a s))
                   (event_callbacks (foldl (\<lambda>s a. perform a s) (perform a s) acts))"
    using Cons.prems by (intro Cons.IH) simp
  ultimately show ?case by (auto intro: prefix_order.trans)
qed

lemma fire_loop_registering:
  assumes "\<forall>c. list_all is_register (fst (callback_body env c ev))"
    and "fire_loop fuel env ev i s = Some s'"
    and "i \<le> length (event_callbacks s)"
  shows "prefix (event_callbacks s) (event_callbacks s')
       \<and> observe invoked (trace s')
           = observe invoked (trace s) @ map (\<lambda>c. (c, ev)) (drop i (event_callbacks s'))"
  using assms(2,3)
proof (induction fuel arbitrary: i s)
  case 0
  then show ?case by (simp add: fire_loop.simps split: if_splits)
next
  case (Suc fuel)
  show ?case
  proof (cases "i < length (event_callbacks s)")
    case False
    then show ?thesis using Suc.prems by (simp add: fire_loop.simps)
  next
    case True
    let ?c = "event_callbacks s ! i"
    let ?s2 = "foldl (\<lambda>s a. perform a s) (log_effect (InvokeCallback ?c ev) s)
                 (fst (callback_body env ?c ev))"
    let ?s3 = "case snd (callback_body env ?c ev) of None \<Rightarrow> ?s2
               | Some e \<Rightarrow> log_effect (LogException e) ?s2"
    have step: "fire_loop fuel env ev (Suc i) ?s3 = Some s'"
      using Suc.prems(1) True by (subst (asm) fire_loop.simps) (simp add: Let_def)
    have cbs3: "event_callbacks ?s3 = event_callbacks ?s2"
      by (simp split: option.splits)
    have pre3: "prefix (event_callbacks s) (event_callbacks ?s3)"
      using foldl_register_prefix [of "fst (callback_body env ?c ev)"
              "log_effect (InvokeCallback ?c ev) s"] assms(1)
      by (simp add: cbs3)
    have inv3: "observe invoked (trace ?s3) = observe invoked (trace s) @ [(?c, ev)]"
      by (simp split: option.splits)
    have len3: "Suc i \<le> length (event_callbacks ?s3)"
      using pre3 True by (auto simp: prefix_def)
    from Suc.IH [OF step len3]
    have pre': "prefix (event_callbacks ?s3) (event_callbacks s')"
      and inv': "observe invoked (trace s')
                   = observe invoked (trace ?s3)
                     @ map (\<lambda>c. (c, ev)) (drop (Suc i) (event_callbacks s'))"
      by simp_all
    have pre: "prefix (event_callbacks s) (event_callbacks s')"
      using pre3 pre' by (rule prefix_order.trans)
    then have nth: "event_callbacks s' ! i = ?c" and len: "i < length (event_callbacks s')"
      using True by (auto simp: prefix_def nth_append)
    have "drop i (event_callbacks s') = ?c # drop (Suc i) (event_callbacks s')"
      using Cons_nth_drop_Suc [OF len] nth by simp
    then show ?thesis
      using pre inv' inv3 by simp
  qed
qed

text \<open>
  The loop with silenced callbacks does the same, up to the logged exceptions.
\<close>

lemma without_exception_log_fields [simp]:
  "devices (without_exception_log s) = devices s"
  "event_callbacks (without_exception_log s) = event_callbacks s"
  "held (without_exception_log s) = held s"
  "allocated (without_exception_log s) = allocated s"
  by (simp_all add: without_exception_log_def)

lemma without_exception_log_perform:
  "without_exception_log (perform a s) = perform a (without_exception_log s)"
  by (cases a)
     (simp_all add: register_event_handler_def unregister_event_handler_def Let_def
        without_exception_log_def acquire_def release_def)

lemma without_exception_log_foldl:
  "without_exception_log (foldl (\<lambda>s a. perform a s) s acts)
     = foldl (\<lambda>s a. perform a s) (without_exception_log s) acts"
  by (induction acts arbitrary: s) (simp_all add: without_exception_log_perform)

lemma without_exception_log_log_effect:
  "without_exception_log (log_effect e s)
     = (if raised e = [] then log_effect e (without_exception_log s)
        else without_exception_log s)"
  by (simp add: without_exception_log_def log_effect_def)

lemma silenced_body [simp]:
  "callback_body (silenced env) c ev = (fst (callback_body env c ev), None)"
  by (simp add: silenced_def)

lemma fire_loop_silenced:
  "map_option without_exception_log (fire_loop fuel env ev i s)
     = fire_loop fuel (silenced env) ev i (without_exception_log s)"
proof (induction fuel arbitrary: i s)
  case 0
  then show ?case by (simp add: fire_loop.simps)
next
  case (Suc fuel)
  show ?case
  proof (cases "i < length (event_callbacks s)")
    case False
    then show ?thesis by (simp add: fire_loop.simps)
  next
    case True
    let ?c = "event_callbacks s ! i"
    let ?s2 = "foldl (\<lambda>s a. perform a s) (log_effect (InvokeCallback ?c ev) s)
                 (fst (callback_body env ?c ev))"
    let ?s3 = "case snd (callback_body env ?c ev) of None \<Rightarrow> ?s2
               | Some e \<Rightarrow> log_effect (LogException e) ?s2"
    have l: "fire_loop (Suc fuel) env ev i s = fire_loop fuel env ev (Suc i) ?s3"
      using True by (subst fire_loop.simps) (simp add: Let_def)
    have erased: "without_exception_log ?s3
                    = foldl (\<lambda>s a. perform a s)
                        (log_effect (InvokeCallback ?c ev) (without_exception_log s))
                        (fst (callback_body env ?c ev))"
      by (simp add: without_exception_log_foldl without_exception_log_log_effect
            split: option.splits)
    have r: "fire_loop (Suc fuel) (silenced env) ev i (without_exception_log s)
               = fire_loop fuel (silenced env) ev (Suc i) (without_exception_log ?s3)"
      using True by (subst fire_loop.simps) (simp add: Let_def erased)
    show ?thesis
      by (simp only: l r Suc.IH)
  qed
qed

lemma register_keeps_distinct:
  "distinct (event_callbacks s) \<Longrightarrow> distinct (event_callbacks (perform a s))"
  by (cases a) (auto simp: register_event_handler_def unregister_event_handler_def Let_def)

lemma fire_event_frame:
  assumes "\<forall>c\<in>set (event_callbacks s). fst (callback_body env c ev) = []"
    and "length (event_callbacks s) \<le> fuel"
  shows "fire_event fuel env ev s =
           Some (s\<lparr>trace := trace s @ (FireEvent ev, held s)
                                # concat (map (invocation env ev (held s)) (event_callbacks s))\<rparr>)"
  using fire_loop_frame [of "log_effect (FireEvent ev) s" env ev 0 fuel] assms
  by (simp add: fire_event_def log_effect_def)

text \<open>
  Claim C4, as amended. \<^verbatim>\<open>_fire_event\<close> takes no snapshot: it walks the list of
  callbacks itself. When no callback on the list registers or unregisters anything during
  the fan-out (and the fuel covers the list), it returns, the list is unchanged, and the
  callbacks invoked are exactly those registered at the call, each once, in registration
  order. When callbacks register further callbacks and the fan-out returns, the list has only
  grown and the callbacks invoked are exactly those on the list at the end: the ones
  registered in flight are invoked by the same fan-out. (Registration keeps the list free of
  duplicates, see \<open>register_keeps_distinct\<close>, so "each once" is meant literally.)
\<close>

theorem fire_event_walks_live_list:
  "((\<forall>c\<in>set (event_callbacks s). fst (callback_body env c ev) = [])
      \<and> length (event_callbacks s) \<le> fuel
     \<longrightarrow> (\<exists>s'. fire_event fuel env ev s = Some s'
              \<and> event_callbacks s' = event_callbacks s
              \<and> observe invoked (trace s')
                  = observe invoked (trace s) @ map (\<lambda>c. (c, ev)) (event_callbacks s)))
   \<and> ((\<forall>c. list_all is_register (fst (callback_body env c ev)))
        \<and> fire_event fuel env ev s = Some s'
       \<longrightarrow> prefix (event_callbacks s) (event_callbacks s')
           \<and> observe invoked (trace s')
               = observe invoked (trace s) @ map (\<lambda>c. (c, ev)) (event_callbacks s'))"
proof (intro conjI impI)
  assume "(\<forall>c\<in>set (event_callbacks s). fst (callback_body env c ev) = [])
            \<and> length (event_callbacks s) \<le> fuel"
  then show "\<exists>s'. fire_event fuel env ev s = Some s'
              \<and> event_callbacks s' = event_callbacks s
              \<and> observe invoked (trace s')
                  = observe invoked (trace s) @ map (\<lambda>c. (c, ev)) (event_callbacks s)"
    by (simp add: fire_event_frame invocation_invoked)
next
  assume a: "(\<forall>c. list_all is_register (fst (callback_body env c ev)))
               \<and> fire_event fuel env ev s = Some s'"
  then have "fire_loop fuel env ev 0 (log_effect (FireEvent ev) s) = Some s'"
    by (simp add: fire_event_def)
  from fire_loop_registering [OF _ this] a
  have "prefix (event_callbacks (log_effect (FireEvent ev) s)) (event_callbacks s')
       \<and> observe invoked (trace s')
           = observe invoked (trace (log_effect (FireEvent ev) s))
             @ map (\<lambda>c. (c, ev)) (drop 0 (event_callbacks s'))"
    by simp
  then show "prefix (event_callbacks s) (event_callbacks s')"
    and "observe invoked (trace s')
           = observe invoked (trace s) @ map (\<lambda>c. (c, ev)) (event_callbacks s')"
    by simp_all
qed

text \<open>
  The exceptions a fan-out logs are those its callbacks raise, whatever the callbacks do to
  the list.
\<close>

lemma fire_loop_logs:
  "fire_loop fuel env ev i s = Some s' \<Longrightarrow>
   \<exists>new. trace s' = trace s @ new
        \<and> observe raised new = concat (map (raised_by env) (observe invoked new))"
proof (induction fuel arbitrary: i s)
  case 0
  then show ?case by (simp add: fire_loop.simps split: if_splits)
next
  case (Suc fuel)
  show ?case
  proof (cases "i < length (event_callbacks s)")
    case False
    then show ?thesis using Suc.prems by (simp add: fire_loop.simps)
  next
    case True
    let ?c = "event_callbacks s ! i"
    let ?s2 = "foldl (\<lambda>s a. perform a s) (log_effect (InvokeCallback ?c ev) s)
                 (fst (callback_body env ?c ev))"
    let ?s3 = "case snd (callback_body env ?c ev) of None \<Rightarrow> ?s2
               | Some e \<Rightarrow> log_effect (LogException e) ?s2"
    have step: "fire_loop fuel env ev (Suc i) ?s3 = Some s'"
      using Suc.prems(1) True by (subst (asm) fire_loop.simps) (simp add: Let_def)
    have t3: "\<exists>new. trace ?s3 = trace s @ new
                \<and> observe raised new = concat (map (raised_by env) (observe invoked new))"
      by (cases "snd (callback_body env ?c ev)") (simp_all add: raised_by_def)
    from Suc.IH [OF step] obtain new' where
      n': "trace s' = trace ?s3 @ new'"
          "observe raised new' = concat (map (raised_by env) (observe invoked new'))"
      by blast
    from t3 obtain new3 where
      n3: "trace ?s3 = trace s @ new3"
          "observe raised new3 = concat (map (raised_by env) (observe invoked new3))"
      by blast
    have "trace s' = trace s @ (new3 @ new')"
      using n'(1) n3(1) by simp
    moreover have "observe raised (new3 @ new')
                     = concat (map (raised_by env) (observe invoked (new3 @ new')))"
      using n'(2) n3(2) by simp
    ultimately show ?thesis by blast
  qed
qed

lemma fire_event_logs:
  assumes "fire_event fuel env ev s = Some s'"
  shows "observe raised (drop (length (trace s)) (trace s'))
           = concat (map (raised_by env) (observe invoked (drop (length (trace s)) (trace s'))))"
proof -
  from assms have "fire_loop fuel env ev 0 (log_effect (FireEvent ev) s) = Some s'"
    by (simp add: fire_event_def)
  from fire_loop_logs [OF this] obtain new where
    "trace s' = trace s @ (FireEvent ev, held s) # new"
    "observe raised new = concat (map (raised_by env) (observe invoked new))"
    by auto
  then show ?thesis by simp
qed

lemma foldl_perform_distinct:
  "distinct (event_callbacks s) \<Longrightarrow>
   distinct (event_callbacks (foldl (\<lambda>s a. perform a s) s acts))"
  by (induction acts arbitrary: s) (simp_all add: register_keeps_distinct)

lemma fire_loop_distinct:
  "fire_loop fuel env ev i s = Some s' \<Longrightarrow> distinct (event_callbacks s) \<Longrightarrow>
   distinct (event_callbacks s')"
proof (induction fuel arbitrary: i s)
  case 0
  then show ?case by (simp add: fire_loop.simps split: if_splits)
next
  case (Suc fuel)
  show ?case
  proof (cases "i < length (event_callbacks s)")
    case False
    then show ?thesis using Suc.prems by (simp add: fire_loop.simps)
  next
    case True
    let ?c = "event_callbacks s ! i"
    let ?s2 = "foldl (\<lambda>s a. perform a s) (log_effect (InvokeCallback ?c ev) s)
                 (fst (callback_body env ?c ev))"
    let ?s3 = "case snd (callback_body env ?c ev) of None \<Rightarrow> ?s2
               | Some e \<Rightarrow> log_effect (LogException e) ?s2"
    have step: "fire_loop fuel env ev (Suc i) ?s3 = Some s'"
      using Suc.prems(1) True by (subst (asm) fire_loop.simps) (simp add: Let_def)
    have "distinct (event_callbacks ?s2)"
      using Suc.prems(2) by (intro foldl_perform_distinct) simp
    then have "distinct (event_callbacks ?s3)"
      by (simp split: option.splits)
    with Suc.IH [OF step] show ?thesis by simp
  qed
qed

text \<open>
  Callbacks that register only callbacks of a finite pool: the list grows by callbacks of
  the pool that are not on it, so the fan-out ends.
\<close>

lemma perform_within:
  assumes "registers_within pool a"
  shows "length (event_callbacks (perform a s)) + card (set pool - set (event_callbacks (perform a s)))
           = length (event_callbacks s) + card (set pool - set (event_callbacks s))
       \<and> set (event_callbacks (perform a s)) \<subseteq> set (event_callbacks s) \<union> set pool
       \<and> length (event_callbacks s) \<le> length (event_callbacks (perform a s))"
proof (cases a)
  case (RegisterEventHandler c)
  with assms have c: "c \<in> set pool" by simp
  show ?thesis
  proof (cases "c \<in> set (event_callbacks s)")
    case True
    then show ?thesis
      using RegisterEventHandler
      by (simp add: register_event_handler_def Let_def acquire_def release_def)
  next
    case False
    have eq: "set pool - (insert c (set (event_callbacks s)))
            = (set pool - set (event_callbacks s)) - {c}"
      by auto
    have "c \<in> set pool - set (event_callbacks s)"
      using c False by simp
    then have "Suc (card ((set pool - set (event_callbacks s)) - {c}))
                 = card (set pool - set (event_callbacks s))"
      by (intro card_Suc_Diff1) simp_all
    then have "Suc (card (set pool - insert c (set (event_callbacks s))))
                       = card (set pool - set (event_callbacks s))"
      by (simp only: eq)
    then show ?thesis
      using RegisterEventHandler False c
      by (simp add: register_event_handler_def Let_def acquire_def release_def)
  qed
next
  case (UnregisterEventHandler c)
  with assms show ?thesis by simp
qed

lemma foldl_perform_within:
  "list_all (registers_within pool) acts \<Longrightarrow>
   length (event_callbacks (foldl (\<lambda>s a. perform a s) s acts))
     + card (set pool - set (event_callbacks (foldl (\<lambda>s a. perform a s) s acts)))
     = length (event_callbacks s) + card (set pool - set (event_callbacks s))
   \<and> set (event_callbacks (foldl (\<lambda>s a. perform a s) s acts))
        \<subseteq> set (event_callbacks s) \<union> set pool
   \<and> length (event_callbacks s)
        \<le> length (event_callbacks (foldl (\<lambda>s a. perform a s) s acts))"
proof (induction acts arbitrary: s)
  case Nil
  then show ?case by simp
next
  case (Cons a acts)
  then have a: "registers_within pool a" and r: "list_all (registers_within pool) acts"
    by simp_all
  from perform_within [OF a, of s] Cons.IH [OF r, of "perform a s"]
  show ?case by auto
qed

lemma fire_loop_ends:
  assumes "\<forall>c\<in>A. list_all (registers_within pool) (fst (callback_body env c ev))"
    and "set pool \<subseteq> A"
  shows "set (event_callbacks s) \<subseteq> A \<Longrightarrow>
         length (event_callbacks s) - i + card (set pool - set (event_callbacks s)) \<le> fuel \<Longrightarrow>
         \<exists>s'. fire_loop fuel env ev i s = Some s'"
proof (induction fuel arbitrary: i s)
  case 0
  then show ?case by (simp add: fire_loop.simps)
next
  case (Suc fuel)
  show ?case
  proof (cases "i < length (event_callbacks s)")
    case False
    then show ?thesis by (simp add: fire_loop.simps)
  next
    case True
    let ?c = "event_callbacks s ! i"
    let ?s1 = "log_effect (InvokeCallback ?c ev) s"
    let ?s2 = "foldl (\<lambda>s a. perform a s) ?s1 (fst (callback_body env ?c ev))"
    let ?s3 = "case snd (callback_body env ?c ev) of None \<Rightarrow> ?s2
               | Some e \<Rightarrow> log_effect (LogException e) ?s2"
    have step: "fire_loop (Suc fuel) env ev i s = fire_loop fuel env ev (Suc i) ?s3"
      using True by (subst fire_loop.simps) (simp add: Let_def)
    have "?c \<in> A" using True Suc.prems(1) by auto
    then have acts: "list_all (registers_within pool) (fst (callback_body env ?c ev))"
      using assms(1) by simp
    have cbs3: "event_callbacks ?s3 = event_callbacks ?s2"
      by (simp split: option.splits)
    from foldl_perform_within [OF acts, of ?s1]
    have m: "length (event_callbacks ?s2) + card (set pool - set (event_callbacks ?s2))
               = length (event_callbacks s) + card (set pool - set (event_callbacks s))"
      and sub: "set (event_callbacks ?s2) \<subseteq> set (event_callbacks s) \<union> set pool"
      and le: "length (event_callbacks s) \<le> length (event_callbacks ?s2)"
      by simp_all
    have "set (event_callbacks ?s3) \<subseteq> A"
      using sub Suc.prems(1) assms(2) by (auto simp: cbs3)
    moreover have "length (event_callbacks ?s3) - Suc i
                     + card (set pool - set (event_callbacks ?s3)) \<le> fuel"
      using m le True Suc.prems(2) unfolding cbs3 by linarith
    ultimately have "\<exists>s'. fire_loop fuel env ev (Suc i) ?s3 = Some s'"
      by (rule Suc.IH)
    then show ?thesis by (simp add: step)
  qed
qed

lemma fire_event_ends:
  assumes "\<forall>c\<in>set (event_callbacks s) \<union> set pool.
             list_all (registers_within pool) (fst (callback_body env c ev))"
    and "length (event_callbacks s) + length pool \<le> fuel"
  shows "\<exists>s'. fire_event fuel env ev s = Some s'"
proof -
  have "card (set pool - set (event_callbacks s)) \<le> length pool"
    by (meson List.finite_set card_length card_mono Diff_subset le_trans)
  then have "length (event_callbacks (log_effect (FireEvent ev) s)) - 0
          + card (set pool - set (event_callbacks (log_effect (FireEvent ev) s))) \<le> fuel"
    using assms(2) by simp
  from fire_loop_ends [OF assms(1) _ _ this]
  show ?thesis by (simp add: fire_event_def)
qed

text \<open>
  Claim C6, as amended. An exception raised by a callback is caught and logged, and it has
  no other effect on the fan-out: run with callbacks that do the same but never raise, the
  fan-out returns in the same cases and leaves the same manager up to the logged exceptions
  (\<open>fire_event\<close> has no error result: nothing propagates to the caller). Whatever the
  callbacks do to the list, the exceptions logged by a fan-out that returns are those raised
  by the callbacks it invoked, in the order of the invocations. When no callback unregisters
  a callback during the fan-out and the fan-out returns, the list has only grown and the
  callbacks invoked are exactly those on the list at the end, each once, in the order of the
  list: those registered after a failing callback and those registered in flight included
  (the list has no duplicates at the end if it had none at the call). Such a fan-out does
  return when the callbacks on the list and in a finite pool register only callbacks of the
  pool, and the fuel covers the list and the pool. When no callback on the list registers or
  unregisters anything, it returns, every registered callback is invoked once, in order,
  whichever of them raise, and the exceptions logged are those raised, in order.
\<close>

theorem callback_failure_is_contained:
  "map_option without_exception_log (fire_event fuel env ev s)
     = fire_event fuel (silenced env) ev (without_exception_log s)
   \<and> (fire_event fuel env ev s = Some s'
       \<longrightarrow> observe raised (drop (length (trace s)) (trace s'))
           = concat (map (raised_by env)
               (observe invoked (drop (length (trace s)) (trace s')))))
   \<and> ((\<forall>c. list_all is_register (fst (callback_body env c ev)))
        \<and> fire_event fuel env ev s = Some s'
       \<longrightarrow> prefix (event_callbacks s) (event_callbacks s')
           \<and> observe invoked (drop (length (trace s)) (trace s'))
               = map (\<lambda>c. (c, ev)) (event_callbacks s')
           \<and> (distinct (event_callbacks s) \<longrightarrow> distinct (event_callbacks s')))
   \<and> ((\<forall>c\<in>set (event_callbacks s) \<union> set pool.
           list_all (registers_within pool) (fst (callback_body env c ev)))
        \<and> length (event_callbacks s) + length pool \<le> fuel
       \<longrightarrow> (\<exists>s''. fire_event fuel env ev s = Some s''))
   \<and> ((\<forall>c\<in>set (event_callbacks s). fst (callback_body env c ev) = [])
        \<and> length (event_callbacks s) \<le> fuel
       \<longrightarrow> (\<exists>s'. fire_event fuel env ev s = Some s'
                \<and> observe invoked (trace s')
                    = observe invoked (trace s) @ map (\<lambda>c. (c, ev)) (event_callbacks s)
                \<and> observe raised (trace s')
                    = observe raised (trace s)
                      @ concat (map (\<lambda>c. case snd (callback_body env c ev) of
                                             None \<Rightarrow> [] | Some e \<Rightarrow> [e])
                                  (event_callbacks s))))"
proof (intro conjI impI)
  show "map_option without_exception_log (fire_event fuel env ev s)
          = fire_event fuel (silenced env) ev (without_exception_log s)"
    by (simp add: fire_event_def fire_loop_silenced without_exception_log_log_effect)
next
  assume "fire_event fuel env ev s = Some s'"
  then show "observe raised (drop (length (trace s)) (trace s'))
           = concat (map (raised_by env)
               (observe invoked (drop (length (trace s)) (trace s'))))"
    by (rule fire_event_logs)
next
  assume a: "(\<forall>c. list_all is_register (fst (callback_body env c ev)))
               \<and> fire_event fuel env ev s = Some s'"
  then have f: "fire_loop fuel env ev 0 (log_effect (FireEvent ev) s) = Some s'"
    by (simp add: fire_event_def)
  from fire_loop_registering [OF _ f] a
  have r: "prefix (event_callbacks s) (event_callbacks s')"
    "observe invoked (trace s')
       = observe invoked (trace s) @ map (\<lambda>c. (c, ev)) (event_callbacks s')"
    by simp_all
  from fire_loop_logs [OF f] obtain new where
    new: "trace s' = trace s @ (FireEvent ev, held s) # new"
    by auto
  show "prefix (event_callbacks s) (event_callbacks s')" by (rule r(1))
  show "observe invoked (drop (length (trace s)) (trace s'))
          = map (\<lambda>c. (c, ev)) (event_callbacks s')"
    using r(2) new by simp
  assume "distinct (event_callbacks s)"
  then show "distinct (event_callbacks s')"
    using fire_loop_distinct [OF f] by simp
next
  assume "(\<forall>c\<in>set (event_callbacks s) \<union> set pool.
             list_all (registers_within pool) (fst (callback_body env c ev)))
            \<and> length (event_callbacks s) + length pool \<le> fuel"
  then show "\<exists>s''. fire_event fuel env ev s = Some s''"
    by (intro fire_event_ends [of s pool]) simp_all
next
  assume "(\<forall>c\<in>set (event_callbacks s). fst (callback_body env c ev) = [])
            \<and> length (event_callbacks s) \<le> fuel"
  then show "\<exists>s'. fire_event fuel env ev s = Some s'
                \<and> observe invoked (trace s')
                    = observe invoked (trace s) @ map (\<lambda>c. (c, ev)) (event_callbacks s)
                \<and> observe raised (trace s')
                    = observe raised (trace s)
                      @ concat (map (\<lambda>c. case snd (callback_body env c ev) of
                                             None \<Rightarrow> [] | Some e \<Rightarrow> [e])
                                  (event_callbacks s))"
    by (simp add: fire_event_frame invocation_invoked invocation_raised)
qed

lemmas bus_defs = two_observers_def registering_body_def leaving_body_def
  leaving_failing_body_def failing_body_def registering_failing_body_def

theorem fire_event_walks_live_list_witness:
  "map (\<lambda>c. fst (callback_body (world [] no_subdevices quiet True) c (ConnectionEvent ''up'')))
     (event_callbacks two_observers) = [[], []]
   \<and> length (event_callbacks two_observers) \<le> 2
   \<and> (\<exists>s'. fire_event 2 (world [] no_subdevices quiet True) (ConnectionEvent ''up'')
               two_observers = Some s'
          \<and> observe invoked (trace s')
              = [(0, ConnectionEvent ''up''), (1, ConnectionEvent ''up'')])
   \<and> (\<forall>c. list_all is_register
             (fst (callback_body (world [] no_subdevices registering_body True) c
                     (ConnectionEvent ''up''))))
   \<and> observe invoked
        (trace (the (fire_event 3 (world [] no_subdevices registering_body True)
                       (ConnectionEvent ''up'') two_observers)))
       = map (\<lambda>c. (c, ConnectionEvent ''up''))
           (event_callbacks (the (fire_event 3 (world [] no_subdevices registering_body True)
                       (ConnectionEvent ''up'') two_observers)))"
  using fire_event_walks_live_list
          [of two_observers "world [] no_subdevices quiet True" "ConnectionEvent ''up''" 2]
        fire_event_walks_live_list
          [of two_observers "world [] no_subdevices registering_body True"
              "ConnectionEvent ''up''" 3
              "the (fire_event 3 (world [] no_subdevices registering_body True)
                       (ConnectionEvent ''up'') two_observers)"]
  by (simp add: world_defs bus_defs run_defs observe_def)

text \<open>
  The claim as it was stated fails: with callbacks 0 and 1 registered, a callback 0 that
  registers callback 2 makes the same fan-out invoke 2, and a callback 0 that unregisters
  itself makes the fan-out skip callback 1.
\<close>

theorem in_flight_changes_counterexample:
  "event_callbacks two_observers = [0, 1]
   \<and> map_option (observe invoked \<circ> trace)
       (fire_event 5 (world [] no_subdevices registering_body True) (ConnectionEvent ''up'')
          two_observers)
       = Some [(0, ConnectionEvent ''up''), (1, ConnectionEvent ''up''),
               (2, ConnectionEvent ''up'')]
   \<and> map_option (observe invoked \<circ> trace)
       (fire_event 5 (world [] no_subdevices leaving_body True) (ConnectionEvent ''up'')
          two_observers)
       = Some [(0, ConnectionEvent ''up'')]"
  by (simp add: world_defs bus_defs run_defs observe_def)

lemma registering_failing_run:
  "fire_event 3 (world [] no_subdevices registering_failing_body True) (ConnectionEvent ''up'')
     two_observers
   = Some (two_observers
       \<lparr>event_callbacks := [0, 1, 2],
        trace := [(FireEvent (ConnectionEvent ''up''), []),
                  (InvokeCallback 0 (ConnectionEvent ''up''), []),
                  (LogException (CallbackError ''boom''), []),
                  (InvokeCallback 1 (ConnectionEvent ''up''), []),
                  (InvokeCallback 2 (ConnectionEvent ''up''), [])]\<rparr>)"
  by (simp add: world_defs bus_defs run_defs)

theorem callback_failure_is_contained_witness:
  "map (\<lambda>c. fst (callback_body (world [] no_subdevices failing_body True) c
                     (ConnectionEvent ''up'')))
     (event_callbacks two_observers) = [[], []]
   \<and> length (event_callbacks two_observers) \<le> 2
   \<and> (\<exists>s'. fire_event 2 (world [] no_subdevices failing_body True) (ConnectionEvent ''up'')
               two_observers = Some s'
          \<and> observe invoked (trace s')
              = [(0, ConnectionEvent ''up''), (1, ConnectionEvent ''up'')]
          \<and> observe raised (trace s') = [CallbackError ''boom''])
   \<and> (\<forall>c. list_all (registers_within [2])
             (fst (callback_body (world [] no_subdevices registering_failing_body True) c
                     (ConnectionEvent ''up''))))
   \<and> (\<forall>c. list_all is_register
             (fst (callback_body (world [] no_subdevices registering_failing_body True) c
                     (ConnectionEvent ''up''))))
   \<and> snd (callback_body (world [] no_subdevices registering_failing_body True) 0
             (ConnectionEvent ''up'')) = Some (CallbackError ''boom'')
   \<and> distinct (event_callbacks two_observers)
   \<and> length (event_callbacks two_observers) + length [2::nat] \<le> 3
   \<and> (\<exists>s'. fire_event 3 (world [] no_subdevices registering_failing_body True)
               (ConnectionEvent ''up'') two_observers = Some s'
          \<and> observe raised (trace s') = [CallbackError ''boom'']
          \<and> observe invoked (trace s')
              = [(0, ConnectionEvent ''up''), (1, ConnectionEvent ''up''),
                 (2, ConnectionEvent ''up'')]
          \<and> distinct (event_callbacks s'))"
proof -
  let ?w = "world [] no_subdevices registering_failing_body True"
  let ?ev = "ConnectionEvent ''up''"
  have within: "\<forall>c. list_all (registers_within [2]) (fst (callback_body ?w c ?ev))"
    by (simp add: world_def registering_failing_body_def)
  then have reg: "\<forall>c. list_all is_register (fst (callback_body ?w c ?ev))"
    by (simp add: world_def registering_failing_body_def)
  have t0: "trace two_observers = []" "distinct (event_callbacks two_observers)"
    "length (event_callbacks two_observers) = 2"
    by (simp_all add: two_observers_def init_def register_event_handler_def Let_def
          acquire_def release_def)
  from callback_failure_is_contained
         [where fuel = 3 and env = ?w and ev = ?ev and s = two_observers and pool = "[2]",
          THEN conjunct2, THEN conjunct2, THEN conjunct2, THEN conjunct1]
       within t0
  obtain s' where run: "fire_event 3 ?w ?ev two_observers = Some s'"
    by auto
  note inst = callback_failure_is_contained
               [where fuel = 3 and env = ?w and ev = ?ev and s = two_observers and s' = s']
  from inst [THEN conjunct2, THEN conjunct1] run t0
  have logged: "observe raised (trace s')
                  = concat (map (raised_by ?w) (observe invoked (trace s')))"
    by simp
  from inst [THEN conjunct2, THEN conjunct2, THEN conjunct1] run reg t0
  have inv: "observe invoked (trace s') = map (\<lambda>c. (c, ?ev)) (event_callbacks s')"
    and dis: "distinct (event_callbacks s')"
    by simp_all
  have cbs: "event_callbacks s' = [0, 1, 2]"
    using run by (auto simp add: registering_failing_run)
  have frame: "map (\<lambda>c. fst (callback_body (world [] no_subdevices failing_body True) c
                     (ConnectionEvent ''up'')))
     (event_callbacks two_observers) = [[], []]
   \<and> length (event_callbacks two_observers) \<le> 2
   \<and> (\<exists>s'. fire_event 2 (world [] no_subdevices failing_body True) (ConnectionEvent ''up'')
               two_observers = Some s'
          \<and> observe invoked (trace s')
              = [(0, ConnectionEvent ''up''), (1, ConnectionEvent ''up'')]
          \<and> observe raised (trace s') = [CallbackError ''boom''])"
    using callback_failure_is_contained
            [of 2 "world [] no_subdevices failing_body True" "ConnectionEvent ''up''"
                two_observers,
             THEN conjunct2, THEN conjunct2, THEN conjunct2, THEN conjunct2]
    by (simp add: world_defs bus_defs observe_def)
  have "observe raised (trace s') = [CallbackError ''boom'']"
    using logged inv cbs
    by (simp add: raised_by_def world_def registering_failing_body_def)
  then have "\<exists>s'. fire_event 3 ?w ?ev two_observers = Some s'
          \<and> observe raised (trace s') = [CallbackError ''boom'']
          \<and> observe invoked (trace s')
              = [(0, ?ev), (1, ?ev), (2, ?ev)]
          \<and> distinct (event_callbacks s')"
    using run inv cbs dis by simp
  moreover have "snd (callback_body ?w 0 ?ev) = Some (CallbackError ''boom'')"
    by (simp add: world_def registering_failing_body_def)
  ultimately show ?thesis
    using frame within reg t0 by simp
qed

text \<open>
  The claim as it was stated fails: callback 0 unregisters itself and raises. The exception
  is caught and logged, and callback 1, registered after it, is not invoked: the loop walks
  the list itself, callback 1 has moved to the position the loop has just left, and the
  next position is past the end. It is the unregistration, not the exception, that makes
  the loop pass over callback 1.
\<close>

theorem failing_callback_counterexample:
  "event_callbacks two_observers = [0, 1]
   \<and> snd (leaving_failing_body 0 (ConnectionEvent ''up'')) = Some (CallbackError ''boom'')
   \<and> map_option (observe invoked \<circ> trace)
       (fire_event 5 (world [] no_subdevices leaving_failing_body True)
          (ConnectionEvent ''up'') two_observers)
       = Some [(0, ConnectionEvent ''up'')]
   \<and> map_option (observe raised \<circ> trace)
       (fire_event 5 (world [] no_subdevices leaving_failing_body True)
          (ConnectionEvent ''up'') two_observers)
       = Some [CallbackError ''boom'']"
  by (simp add: world_defs bus_defs run_defs observe_def)

section \<open>Discovery: what a pass adds to the trace\<close>

text \<open>
  Each part of a pass leaves the locks as it found them and extends the trace by entries of
  a known kind; an object built by the handler gets the next identity.
\<close>

lemma grows_refl: "grows Q s s"
  by (simp add: grows_def)

lemma grows_trans: "grows Q s s1 \<Longrightarrow> grows Q s1 s2 \<Longrightarrow> grows Q s s2"
  by (auto simp: grows_def)

lemma grows_mono: "grows Q s s' \<Longrightarrow> (\<And>x. Q x \<Longrightarrow> Q' x) \<Longrightarrow> grows Q' s s'"
  by (auto simp: grows_def list_all_iff)

lemma grows_log: "Q (e, held s) \<Longrightarrow> grows Q s (log_effect e s)"
  by (simp add: grows_def)

lemma fire_loop_extends:
  "fire_loop fuel env ev i s = Some s' \<Longrightarrow>
   held s' = held s \<and> devices s' = devices s \<and> allocated s' = allocated s
   \<and> (\<exists>new. trace s' = trace s @ new \<and> list_all (handler_entry (held s) P) new)"
proof (induction fuel arbitrary: i s)
  case 0
  then show ?case by (simp add: fire_loop.simps split: if_splits)
next
  case (Suc fuel)
  show ?case
  proof (cases "i < length (event_callbacks s)")
    case False
    then show ?thesis using Suc.prems by (simp add: fire_loop.simps)
  next
    case True
    let ?c = "event_callbacks s ! i"
    let ?s2 = "foldl (\<lambda>s a. perform a s) (log_effect (InvokeCallback ?c ev) s)
                 (fst (callback_body env ?c ev))"
    let ?s3 = "case snd (callback_body env ?c ev) of None \<Rightarrow> ?s2
               | Some e \<Rightarrow> log_effect (LogException e) ?s2"
    have step: "fire_loop fuel env ev (Suc i) ?s3 = Some s'"
      using Suc.prems(1) True by (subst (asm) fire_loop.simps) (simp add: Let_def)
    have s3: "held ?s3 = held s" "devices ?s3 = devices s" "allocated ?s3 = allocated s"
      by (simp_all split: option.splits)
    have t3: "\<exists>new. trace ?s3 = trace s @ new \<and> list_all (handler_entry (held s) P) new"
      by (cases "snd (callback_body env ?c ev)") simp_all
    from Suc.IH [OF step] s3
    have "held s' = held s" "devices s' = devices s" "allocated s' = allocated s"
      and "\<exists>new. trace s' = trace ?s3 @ new \<and> list_all (handler_entry (held s) P) new"
      by simp_all
    with t3 show ?thesis by (metis append.assoc list_all_append)
  qed
qed

lemma fire_event_grows:
  assumes "fire_event fuel env ev s = Some s'"
  shows "grows (handler_entry (held s) P) s s'" "devices s' = devices s"
    "allocated s' = allocated s"
proof -
  from assms have "fire_loop fuel env ev 0 (log_effect (FireEvent ev) s) = Some s'"
    by (simp add: fire_event_def)
  from fire_loop_extends [OF this, of P]
  show "grows (handler_entry (held s) P) s s'" "devices s' = devices s"
    "allocated s' = allocated s"
    by (auto simp: grows_def)
qed

lemma foldl_register_callbacks:
  "foldl (\<lambda>s c. log_effect (RegisterEventCallback d c) s) s cs
     = s\<lparr>trace := trace s @ map (\<lambda>c. (RegisterEventCallback d c, held s)) cs\<rparr>"
  by (induction cs arbitrary: s) (simp_all add: log_effect_def)

lemma add_if_new_grows:
  assumes "add_if_new fuel env d_id device_id device s = Some (Inr (d', s'))"
  shows "grows (handler_entry (held s) P) s s'" "allocated s' = allocated s" "d' = device"
proof -
  show "d' = device"
    using assms by (auto simp: add_if_new_def Let_def split: option.splits if_splits)
  show "grows (handler_entry (held s) P) s s'"
  proof (cases device)
    case None
    then show ?thesis using assms by (simp add: add_if_new_def grows_refl)
  next
    case (Some d)
    show ?thesis
    proof (cases "d_id \<in> fst ` set (devices s)")
      case True
      then show ?thesis using assms Some by (simp add: add_if_new_def Let_def grows_refl)
    next
      case False
      let ?s3 = "s\<lparr>devices := AList.update device_id d (devices s)\<rparr>"
      let ?s6 = "?s3\<lparr>trace := trace s @ map (\<lambda>c. (RegisterEventCallback (h_id d) c,
                                                    EventCallbacksLock # held s))
                                            (event_callbacks s)\<rparr>"
      have "fire_event fuel env (DeviceOnlineStatusEvent d (h_online d)) ?s6 = Some s'"
        using assms Some False
        by (simp add: add_if_new_def Let_def foldl_register_callbacks acquire_def release_def
              split: option.splits)
      from fire_event_grows(1) [OF this, of P]
      have g: "grows (handler_entry (held s) P) ?s6 s'" by simp
      have "grows (handler_entry (held s) P) s ?s6"
        by (simp add: grows_def list_all_iff)
      then show ?thesis using g by (rule grows_trans)
    qed
  qed
  show "allocated s' = allocated s"
    using assms fire_event_grows(3)
    by (auto simp: add_if_new_def Let_def foldl_register_callbacks
          split: option.splits if_splits)
qed

lemma handle_device_discovered_grows:
  assumes "handle_device_discovered fuel env dev parent_hub s = Some (Inr (d, s'))"
  shows "grows (handler_entry (held s) (\<lambda>p. Some p = map_option h_id parent_hub)) s s'"
    and "case d of None \<Rightarrow> allocated s' = allocated s
         | Some h \<Rightarrow> h_id h = allocated s \<and> allocated s' = Suc (allocated s)"
proof -
  let ?P = "\<lambda>p. Some p = map_option h_id parent_hub"
  have both: "grows (handler_entry (held s) ?P) s s'
       \<and> (case d of None \<Rightarrow> allocated s' = allocated s
           | Some h \<Rightarrow> h_id h = allocated s \<and> allocated s' = Suc (allocated s))"
  proof (cases "deviceType dev \<noteq> None \<and> uuid dev \<noteq> None")
    case True
    obtain device s1 where c: "construct (build_wrapper env (the (deviceType dev)) (the (uuid dev)) dev)
                  (log_effect (BuildWrapper (the (deviceType dev)) (the (uuid dev))) s) = (device, s1)"
      by (cases "construct (build_wrapper env (the (deviceType dev)) (the (uuid dev)) dev)
                  (log_effect (BuildWrapper (the (deviceType dev)) (the (uuid dev))) s)")
    have a: "add_if_new fuel env (the (uuid dev)) (the (uuid dev)) device s1 = Some (Inr (d, s'))"
      using assms True c by (simp add: handle_device_discovered_def Let_def)
    have g1: "grows (handler_entry (held s) ?P) s s1"
      using c by (auto simp: construct_def grows_def split: option.splits)
    have h1: "held s1 = held s"
      using c by (auto simp: construct_def split: option.splits)
    have al: "case device of None \<Rightarrow> allocated s1 = allocated s
              | Some h \<Rightarrow> h_id h = allocated s \<and> allocated s1 = Suc (allocated s)"
      using c by (auto simp: construct_def split: option.splits)
    from add_if_new_grows(1) [OF a, of ?P] add_if_new_grows(2,3) [OF a] h1 g1 al
    show ?thesis by (auto intro: grows_trans split: option.splits)
  next
    case False
    note not_full = this
    show ?thesis
    proof (cases "subDeviceType dev \<noteq> None \<and> subDeviceId dev \<noteq> None")
      case False
      then show ?thesis
        using assms not_full by (auto simp: handle_device_discovered_def grows_def)
    next
      case True
      then obtain hub where hub: "parent_hub = Some hub"
        using assms not_full by (cases parent_hub) (auto simp: handle_device_discovered_def)
      let ?e = "BuildSubdeviceWrapper (the (subDeviceType dev)) (the (subDeviceId dev)) (h_id hub)"
      obtain device s1 where c: "construct (build_subdevice_wrapper env (the (subDeviceType dev))
                      (the (subDeviceId dev)) hub dev) (log_effect ?e s) = (device, s1)"
        by (cases "construct (build_subdevice_wrapper env (the (subDeviceType dev))
                      (the (subDeviceId dev)) hub dev) (log_effect ?e s)")
      have a: "add_if_new fuel env (the (subDeviceId dev))
                 (h_uuid hub @ '':'' @ the (subDeviceId dev)) device s1 = Some (Inr (d, s'))"
        using assms True not_full hub c
        by (auto simp: handle_device_discovered_def Let_def split: if_splits)
      have g1: "grows (handler_entry (held s) ?P) s s1"
        using c hub by (auto simp: construct_def grows_def split: option.splits)
      have h1: "held s1 = held s"
        using c by (auto simp: construct_def split: option.splits)
      have al: "case device of None \<Rightarrow> allocated s1 = allocated s
                | Some h \<Rightarrow> h_id h = allocated s \<and> allocated s1 = Suc (allocated s)"
        using c by (auto simp: construct_def split: option.splits)
      from add_if_new_grows(1) [OF a, of ?P] add_if_new_grows(2,3) [OF a] h1 g1 al
      show ?thesis by (auto intro: grows_trans split: option.splits)
    qed
  qed
  from both show "grows (handler_entry (held s) ?P) s s'" by simp
  from both show "case d of None \<Rightarrow> allocated s' = allocated s
         | Some h \<Rightarrow> h_id h = allocated s \<and> allocated s' = Suc (allocated s)" by simp
qed

lemma handle_subdevices_grows:
  "handle_subdevices fuel env hub subs s = Some (Inr s') \<Longrightarrow>
   grows (handler_entry (held s) (\<lambda>p. p = h_id hub)) s s'"
proof (induction subs arbitrary: s)
  case Nil
  then show ?case by (simp add: grows_refl)
next
  case (Cons subdev rest)
  from Cons.prems obtain d s1 where
    h: "handle_device_discovered fuel env subdev (Some hub) s = Some (Inr (d, s1))"
    and r: "handle_subdevices fuel env hub rest s1 = Some (Inr s')"
    by (auto split: option.splits sum.splits)
  from handle_device_discovered_grows(1) [OF h]
  have g1: "grows (handler_entry (held s) (\<lambda>p. p = h_id hub)) s s1"
    by (auto elim: grows_mono)
  then have "held s1 = held s" by (simp add: grows_def)
  with Cons.IH [OF r] g1 show ?case by (auto intro: grows_trans)
qed

lemma handler_entry_silent:
  "handler_entry h P x \<Longrightarrow>
   hub_query (fst x) = [] \<and> listing (fst x) = [] \<and> pushed (fst x) = []"
  by (cases x; cases "fst x") auto

lemma handler_entries_silent:
  "list_all (handler_entry h P) new \<Longrightarrow>
   observe hub_query new = [] \<and> observe listing new = [] \<and> observe pushed new = []"
  by (induction new) (auto dest: handler_entry_silent)

lemma handler_entry_parent:
  "handler_entry h P x \<Longrightarrow> list_all P (subdevice_parent (fst x))"
  by (cases x; cases "fst x") auto

lemma handler_entry_discovery:
  "handler_entry h P x \<Longrightarrow> (\<And>p. P p \<Longrightarrow> P' p) \<Longrightarrow> discovery_entry h P' x"
  by (cases x; cases "fst x") auto

lemma discovery_entry_mono:
  "discovery_entry h P x \<Longrightarrow> (\<And>p. P p \<Longrightarrow> P' p) \<Longrightarrow> discovery_entry h P' x"
  by (cases x; cases "fst x") auto

lemma discovery_entry_silent:
  "discovery_entry h P x \<Longrightarrow> listing (fst x) = [] \<and> pushed (fst x) = []"
  by (cases x; cases "fst x") auto

lemma discovery_entry_parent:
  "discovery_entry h P x \<Longrightarrow> list_all P (subdevice_parent (fst x))"
  by (cases x; cases "fst x") auto

text \<open>
  What the handler returns for a descriptor of the top-level listing is the object the
  factory builds for it, stored or not; the sub-device listings of a pass follow from it.
\<close>

lemma handle_top_level_result:
  assumes "handle_device_discovered fuel env dev None s = Some (Inr (d, s1))"
  shows "d = (if deviceType dev \<noteq> None \<and> uuid dev \<noteq> None
              then map_option (\<lambda>h. h\<lparr>h_id := allocated s\<rparr>)
                     (build_wrapper env (the (deviceType dev)) (the (uuid dev)) dev)
              else None)"
proof (cases "deviceType dev \<noteq> None \<and> uuid dev \<noteq> None")
  case True
  obtain device s0 where c:
    "construct (build_wrapper env (the (deviceType dev)) (the (uuid dev)) dev)
       (log_effect (BuildWrapper (the (deviceType dev)) (the (uuid dev))) s) = (device, s0)"
    by (cases "construct (build_wrapper env (the (deviceType dev)) (the (uuid dev)) dev)
                 (log_effect (BuildWrapper (the (deviceType dev)) (the (uuid dev))) s)")
  have "add_if_new fuel env (the (uuid dev)) (the (uuid dev)) device s0 = Some (Inr (d, s1))"
    using assms True c by (simp add: handle_device_discovered_def Let_def)
  from add_if_new_grows(3) [OF this] have "d = device" .
  moreover have "device = map_option (\<lambda>h. h\<lparr>h_id := allocated s\<rparr>)
                     (build_wrapper env (the (deviceType dev)) (the (uuid dev)) dev)"
    using c by (auto simp: construct_def split: option.splits)
  ultimately show ?thesis using True by simp
next
  case False
  then show ?thesis
    using assms by (auto simp: handle_device_discovered_def split: if_splits)
qed

lemma pass_entries_step:
  assumes first: "held s1 = held s" "allocated s \<le> allocated s1"
      "trace s1 = trace s @ new1"
      "list_all (discovery_entry (held s) (\<lambda>p. allocated s \<le> p)) new1"
      "observe hub_query new1 = (case queried_hub env online_only dev of None \<Rightarrow> [] | Some u \<Rightarrow> [u])"
    and rest: "pass_entries env online_only devs s1 s'"
  shows "pass_entries env online_only (dev # devs) s s'"
proof -
  from rest obtain new where n:
    "held s' = held s1" "allocated s1 \<le> allocated s'" "trace s' = trace s1 @ new"
    "list_all (discovery_entry (held s1) (\<lambda>p. allocated s1 \<le> p)) new"
    "observe hub_query new = List.map_filter (queried_hub env online_only) devs"
    by (auto simp: pass_entries_def)
  have "list_all (discovery_entry (held s) (\<lambda>p. allocated s \<le> p)) new"
    using n(4) first(1,2) by (auto simp: list_all_iff elim!: discovery_entry_mono)
  then have "list_all (discovery_entry (held s) (\<lambda>p. allocated s \<le> p)) (new1 @ new)"
    using first(4) by simp
  moreover have "observe hub_query (new1 @ new)
                   = List.map_filter (queried_hub env online_only) (dev # devs)"
    using first(5) n(5) by (simp add: List.map_filter_simps split: option.splits)
  moreover have "trace s' = trace s @ (new1 @ new)"
    using n(3) first(3) by simp
  ultimately show ?thesis
    unfolding pass_entries_def using n(1,2) first(1,2) by (intro conjI exI [of _ "new1 @ new"]) auto
qed

lemma isinstance_h_id [simp]: "isinstance (h\<lparr>h_id := n\<rparr>) c = isinstance h c"
  by (simp add: isinstance_def)

lemma discover_loop_entries:
  "discover_loop fuel env online_only devs s = Some (Inr s') \<Longrightarrow>
   pass_entries env online_only devs s s'"
proof (induction devs arbitrary: s)
  case Nil
  then show ?case by (simp add: pass_entries_def List.map_filter_simps)
next
  case (Cons dev rest)
  let ?P = "\<lambda>p. allocated s \<le> p"
  from Cons.prems obtain online where online: "onlineStatus dev = Some online"
    by (cases "onlineStatus dev") auto
  show ?case
  proof (cases "online_only \<and> online \<noteq> 1")
    case True
    then have "discover_loop fuel env online_only rest s = Some (Inr s')"
      using Cons.prems online by simp
    from Cons.IH [OF this] show ?thesis
      using True online
      by (intro pass_entries_step [where ?s1.0 = s and ?new1.0 = "[]"])
         (simp_all add: queried_hub_def)
  next
    case False
    with Cons.prems online obtain d s1 where
      h: "handle_device_discovered fuel env dev None s = Some (Inr (d, s1))"
      by (auto split: option.splits sum.splits)
    from handle_device_discovered_grows [OF h]
    obtain n1 where g1: "held s1 = held s" "allocated s \<le> allocated s1"
        "trace s1 = trace s @ n1"
        "list_all (handler_entry (held s) (\<lambda>p. Some p = None)) n1"
      and al: "case d of None \<Rightarrow> allocated s1 = allocated s
               | Some h \<Rightarrow> h_id h = allocated s \<and> allocated s1 = Suc (allocated s)"
      by (auto simp: grows_def)
    have d1: "list_all (discovery_entry (held s) ?P) n1"
      using g1(4) by (auto simp: list_all_iff elim!: handler_entry_discovery)
    have q1: "observe hub_query n1 = []"
      using g1(4) by (simp add: handler_entries_silent)
    note res = handle_top_level_result [OF h]
    show ?thesis
    proof (cases "\<exists>hub. d = Some hub \<and> isinstance hub ''GenericHub''")
      case False
      then have "discover_loop fuel env online_only rest s1 = Some (Inr s')"
        using Cons.prems online \<open>\<not> (online_only \<and> online \<noteq> 1)\<close> h
        by (cases d) auto
      from Cons.IH [OF this] have rest: "pass_entries env online_only rest s1 s'" .
      have "queried_hub env online_only dev = None"
        using False res online \<open>\<not> (online_only \<and> online \<noteq> 1)\<close>
        by (auto simp: queried_hub_def split: option.splits if_splits)
      then show ?thesis
        using g1 d1 q1 rest
        by (intro pass_entries_step [where ?s1.0 = s1 and ?new1.0 = n1]) simp_all
    next
      case True
      then obtain hub where hub: "d = Some hub" "isinstance hub ''GenericHub''" by auto
      let ?s1' = "log_effect (ListHubSubdevices (h_uuid hub)) s1"
      from Cons.prems online \<open>\<not> (online_only \<and> online \<noteq> 1)\<close> h hub
      obtain s2 where
        subs: "handle_subdevices fuel env hub (list_hub_subdevices env (h_uuid hub)) ?s1'
                 = Some (Inr s2)"
        and r: "discover_loop fuel env online_only rest s2 = Some (Inr s')"
        by (auto split: option.splits sum.splits)
      from Cons.IH [OF r] have rest: "pass_entries env online_only rest s2 s'" .
      from handle_subdevices_grows [OF subs]
      obtain n2 where g2: "held s2 = held s1" "allocated s1 \<le> allocated s2"
          "trace s2 = trace s1 @ (ListHubSubdevices (h_uuid hub), held s1) # n2"
          "list_all (handler_entry (held s1) (\<lambda>p. p = h_id hub)) n2"
        by (auto simp: grows_def)
      have hid: "h_id hub = allocated s"
        using al hub by simp
      have d2: "list_all (discovery_entry (held s) ?P) n2"
        using g2(4) g1(1) hid by (auto simp: list_all_iff elim!: handler_entry_discovery)
      have q2: "observe hub_query n2 = []"
        using g2(4) by (simp add: handler_entries_silent)
      have "queried_hub env online_only dev = Some (h_uuid hub)"
        using hub res online \<open>\<not> (online_only \<and> online \<noteq> 1)\<close>
        by (auto simp: queried_hub_def split: option.splits if_splits)
      then show ?thesis
        using g1 g2 d1 d2 q1 q2 rest
        by (intro pass_entries_step
              [where ?s1.0 = s2 and ?new1.0 = "n1 @ (ListHubSubdevices (h_uuid hub), held s) # n2"])
           simp_all
    qed
  qed
qed

text \<open>
  Two passes over the same listing of one hub that reports one sub-device.
\<close>

lemma first_pass:
  "discover_devices 5 hub_world False init = Some (Inr after_first_pass)"
  by (simp add: after_first_pass_def returned_def hub_world_def world_defs run_defs)

lemma after_first_pass_devices:
  "devices after_first_pass =
     [(''H1'', (hub_object ''H1'')\<lparr>h_id := 0\<rparr>),
      (''H1:S1'', (valve_object ''mts100v3'' ''S1'')\<lparr>h_id := 1\<rparr>)]"
  by (simp add: after_first_pass_def returned_def hub_world_def world_defs run_defs)

lemma second_pass:
  "discover_devices 5 hub_world False after_first_pass = Some (Inr after_second_pass)"
  by (simp add: after_second_pass_def after_first_pass_def returned_def hub_world_def world_defs run_defs)

lemma after_second_pass_devices:
  "devices after_second_pass =
     [(''H1'', (hub_object ''H1'')\<lparr>h_id := 0\<rparr>),
      (''H1:S1'', (valve_object ''mts100v3'' ''S1'')\<lparr>h_id := 3\<rparr>)]"
  by (simp add: after_second_pass_def after_first_pass_def returned_def hub_world_def world_defs run_defs)

lemma two_hubs:
  "map_option (map_sum id (map fst \<circ> devices)) (discover_devices 5 two_hubs_world False init)
     = Some (Inr [''H1'', ''H1:S1'', ''H2'', ''H2:S1''])"
  by (simp add: two_hubs_world_def world_defs run_defs)

lemma hub_world_fields:
  "list_devices hub_world = [device_descr ''msh300'' ''H1'']"
  "list_hub_subdevices hub_world u = [subdevice_descr ''S1'']"
  "build_wrapper hub_world = factory"
  by (simp_all add: hub_world_def world_def)

lemma discovery_entries_parents:
  "list_all (discovery_entry h P) new \<Longrightarrow> list_all P (observe subdevice_parent new)"
  by (induction new) (auto dest: discovery_entry_parent)

lemma discovery_entries_silent:
  "list_all (discovery_entry h P) new \<Longrightarrow> observe listing new = [] \<and> observe pushed new = []"
  by (induction new) (auto dest: discovery_entry_silent)

lemma discover_devices_entries:
  assumes "discover_devices fuel env online_only s = Some (Inr s')"
  shows "\<exists>new. trace s' = trace s @ (ListDevices, held s) # new
              \<and> list_all (discovery_entry (held s) (\<lambda>p. allocated s \<le> p)) new
              \<and> observe hub_query new
                  = List.map_filter (queried_hub env online_only) (list_devices env)"
    and "held s' = held s"
  using discover_loop_entries [of fuel env online_only "list_devices env" "log_effect ListDevices s" s'] assms
  by (auto simp: discover_devices_def pass_entries_def)

text \<open>
  A run that raises: the handler of one descriptor raises before it has done anything, and
  what a pass has added to the trace when it raises is of the same kind as what a pass that
  returns adds.
\<close>

lemma manager_after_simps [simp]:
  "manager_after (Inl (e, s)) = s" "manager_after (Inr s) = s"
  by (simp_all add: manager_after_def)

lemma manager_after_Inl: "manager_after (Inl x) = snd x"
  by (cases x) simp

lemma add_if_new_no_error:
  "add_if_new fuel env d_id device_id device s \<noteq> Some (Inl x)"
  by (auto simp: add_if_new_def Let_def split: option.splits)

lemma handle_device_discovered_raises:
  assumes "handle_device_discovered fuel env dev parent_hub s = Some (Inl (e, s'))"
  shows "s' = s \<and> e = AttributeError \<and> parent_hub = None"
  using assms add_if_new_no_error
  by (auto simp: handle_device_discovered_def Let_def split: if_splits option.splits prod.splits)

lemma handle_subdevices_leaves:
  "handle_subdevices fuel env hub subs s = Some r \<Longrightarrow>
   grows (handler_entry (held s) (\<lambda>p. p = h_id hub)) s (manager_after r)"
proof (induction subs arbitrary: s)
  case Nil
  then show ?case by (auto simp: grows_refl)
next
  case (Cons subdev rest)
  from Cons.prems obtain r1 where
    h: "handle_device_discovered fuel env subdev (Some hub) s = Some r1"
    by (auto split: option.splits)
  show ?case
  proof (cases r1)
    case (Inl x)
    then show ?thesis
      using h Cons.prems
        handle_device_discovered_raises [of fuel env subdev "Some hub" s "fst x" "snd x"]
      by auto
  next
    case (Inr y)
    obtain d s1 where y: "y = (d, s1)" by (cases y)
    have r: "handle_subdevices fuel env hub rest s1 = Some r"
      using Cons.prems h Inr y by simp
    from handle_device_discovered_grows(1) [of fuel env subdev "Some hub" s d s1] h Inr y
    have g1: "grows (handler_entry (held s) (\<lambda>p. p = h_id hub)) s s1"
      by (auto elim: grows_mono)
    then have "held s1 = held s" by (simp add: grows_def)
    with Cons.IH [OF r] g1 show ?thesis by (auto intro: grows_trans)
  qed
qed

lemma discover_loop_leaves:
  "discover_loop fuel env online_only devs s = Some r \<Longrightarrow>
   grows (discovery_entry (held s) (\<lambda>p. allocated s \<le> p)) s (manager_after r)"
proof (induction devs arbitrary: s)
  case Nil
  then show ?case by (auto simp: grows_refl)
next
  case (Cons dev rest)
  let ?Q = "discovery_entry (held s) (\<lambda>p. allocated s \<le> p)"
  have later: "grows ?Q s (manager_after r)"
    if g: "grows ?Q s s1" and r: "discover_loop fuel env online_only rest s1 = Some r" for s1
  proof -
    have "held s1 = held s" "allocated s \<le> allocated s1"
      using g by (simp_all add: grows_def)
    then have "grows ?Q s1 (manager_after r)"
      using Cons.IH [OF r] by (auto elim!: grows_mono discovery_entry_mono)
    with g show ?thesis by (rule grows_trans)
  qed
  show ?case
  proof (cases "onlineStatus dev")
    case None
    then show ?thesis using Cons.prems by (auto simp: grows_refl)
  next
    case (Some online)
    show ?thesis
    proof (cases "online_only \<and> online \<noteq> 1")
      case True
      then show ?thesis using Cons.prems Some later [OF grows_refl] by simp
    next
      case False
      with Cons.prems Some obtain r1 where
        h: "handle_device_discovered fuel env dev None s = Some r1"
        by (auto split: option.splits)
      show ?thesis
      proof (cases r1)
        case (Inl x)
        then show ?thesis
          using h Cons.prems Some False
            handle_device_discovered_raises [of fuel env dev None s "fst x" "snd x"]
          by (auto simp: grows_refl manager_after_Inl)
      next
        case (Inr y)
        obtain d s1 where y: "y = (d, s1)" by (cases y)
        from handle_device_discovered_grows [of fuel env dev None s d s1] h Inr y
        have g1: "grows ?Q s s1"
          and al: "case d of None \<Rightarrow> allocated s1 = allocated s
                   | Some h \<Rightarrow> h_id h = allocated s \<and> allocated s1 = Suc (allocated s)"
          by (auto elim!: grows_mono handler_entry_discovery)
        show ?thesis
        proof (cases "\<exists>hub. d = Some hub \<and> isinstance hub ''GenericHub''")
          case False
          then have "discover_loop fuel env online_only rest s1 = Some r"
            using Cons.prems Some \<open>\<not> (online_only \<and> online \<noteq> 1)\<close> h Inr y
            by (cases d) auto
          from later [OF g1 this] show ?thesis .
        next
          case True
          then obtain hub where hub: "d = Some hub" "isinstance hub ''GenericHub''" by auto
          let ?s1' = "log_effect (ListHubSubdevices (h_uuid hub)) s1"
          from Cons.prems Some \<open>\<not> (online_only \<and> online \<noteq> 1)\<close> h Inr y hub
          obtain r2 where
            subs: "handle_subdevices fuel env hub (list_hub_subdevices env (h_uuid hub)) ?s1'
                     = Some r2"
            by (auto split: option.splits)
          have h1: "held s1 = held s" using g1 by (simp add: grows_def)
          have hid: "h_id hub = allocated s" using al hub by simp
          have g1': "grows ?Q s ?s1'"
            using g1 h1 by (auto simp: grows_def)
          from handle_subdevices_leaves [OF subs]
          have g2: "grows ?Q ?s1' (manager_after r2)"
            using h1 hid by (auto elim!: grows_mono handler_entry_discovery)
          show ?thesis
          proof (cases r2)
            case (Inl x)
            then have "r = Inl x"
              using Cons.prems Some \<open>\<not> (online_only \<and> online \<noteq> 1)\<close> h Inr y hub subs
              by simp
            then show ?thesis
              using g1' g2 Inl by (cases x) (auto intro: grows_trans)
          next
            case (Inr s2)
            then have "discover_loop fuel env online_only rest s2 = Some r"
              using Cons.prems Some \<open>\<not> (online_only \<and> online \<noteq> 1)\<close> h \<open>r1 = Inr y\<close> y hub subs
              by simp
            moreover have "grows ?Q s s2"
              using g1' g2 Inr by (auto intro: grows_trans)
            ultimately show ?thesis by (intro later)
          qed
        qed
      qed
    qed
  qed
qed

lemma discover_devices_leaves:
  assumes "discover_devices fuel env online_only s = Some r"
  shows "\<exists>new. trace (manager_after r) = trace s @ (ListDevices, held s) # new
              \<and> list_all (discovery_entry (held s) (\<lambda>p. allocated s \<le> p)) new"
    and "held (manager_after r) = held s"
  using discover_loop_leaves
          [of fuel env online_only "list_devices env" "log_effect ListDevices s" r] assms
  by (auto simp: discover_devices_def grows_def)

section \<open>Two passes over a hub\<close>

text \<open>
  The traces of two passes over the hub \<open>H1\<close> and its sub-device \<open>S1\<close>.
\<close>

lemma second_pass_trace:
  "map fst (drop (length (trace after_first_pass)) (trace after_second_pass)) =
     [ListDevices, BuildWrapper ''msh300'' ''H1'', ListHubSubdevices ''H1'',
      BuildSubdeviceWrapper ''mts100v3'' ''S1'' 2,
      FireEvent (DeviceOnlineStatusEvent ((valve_object ''mts100v3'' ''S1'')\<lparr>h_id := 3\<rparr>) True)]"
  by (simp add: after_second_pass_def after_first_pass_def returned_def hub_world_def world_defs run_defs)

lemma first_pass_trace:
  "map fst (trace after_first_pass) =
     [ListDevices, BuildWrapper ''msh300'' ''H1'',
      FireEvent (DeviceOnlineStatusEvent ((hub_object ''H1'')\<lparr>h_id := 0\<rparr>) True),
      ListHubSubdevices ''H1'',
      BuildSubdeviceWrapper ''mts100v3'' ''S1'' 0,
      FireEvent (DeviceOnlineStatusEvent ((valve_object ''mts100v3'' ''S1'')\<lparr>h_id := 1\<rparr>) True)]"
  by (simp add: after_first_pass_def returned_def hub_world_def world_defs run_defs)

lemma observe_map_fst: "observe f tr = concat (map f (map fst tr))"
  by (simp add: observe_def comp_def)

section \<open>Discovering a device again\<close>

lemma fire_loop_fired:
  "fire_loop fuel env ev i s = Some s' \<Longrightarrow> observe fired (trace s') = observe fired (trace s)"
proof (induction fuel arbitrary: i s)
  case 0
  then show ?case by (simp add: fire_loop.simps split: if_splits)
next
  case (Suc fuel)
  show ?case
  proof (cases "i < length (event_callbacks s)")
    case False
    then show ?thesis using Suc.prems by (simp add: fire_loop.simps)
  next
    case True
    let ?c = "event_callbacks s ! i"
    let ?s2 = "foldl (\<lambda>s a. perform a s) (log_effect (InvokeCallback ?c ev) s)
                 (fst (callback_body env ?c ev))"
    let ?s3 = "case snd (callback_body env ?c ev) of None \<Rightarrow> ?s2
               | Some e \<Rightarrow> log_effect (LogException e) ?s2"
    have step: "fire_loop fuel env ev (Suc i) ?s3 = Some s'"
      using Suc.prems(1) True by (subst (asm) fire_loop.simps) (simp add: Let_def)
    have "observe fired (trace ?s3) = observe fired (trace s)"
      by (simp split: option.splits)
    with Suc.IH [OF step] show ?thesis by simp
  qed
qed

lemma fire_event_fired:
  "fire_event fuel env ev s = Some s' \<Longrightarrow>
   observe fired (trace s') = observe fired (trace s) @ [ev]"
  using fire_loop_fired [of fuel env ev 0 "log_effect (FireEvent ev) s" s']
  by (simp add: fire_event_def)

lemma add_if_new_stores:
  assumes "add_if_new fuel env d_id device_id (Some d) s = Some (Inr (r, s'))"
  shows "devices s' = (if d_id \<in> fst ` set (devices s) then devices s
                       else AList.update device_id d (devices s))"
    and "observe fired (trace s')
           = observe fired (trace s)
             @ (if d_id \<in> fst ` set (devices s) then []
                else [DeviceOnlineStatusEvent d (h_online d)])"
proof -
  show "devices s' = (if d_id \<in> fst ` set (devices s) then devices s
                       else AList.update device_id d (devices s))"
    using assms fire_event_grows(2)
    by (auto simp: add_if_new_def Let_def foldl_register_callbacks
          split: option.splits if_splits)
  show "observe fired (trace s')
           = observe fired (trace s)
             @ (if d_id \<in> fst ` set (devices s) then []
                else [DeviceOnlineStatusEvent d (h_online d)])"
  proof (cases "d_id \<in> fst ` set (devices s)")
    case True
    then show ?thesis using assms by (auto simp: add_if_new_def Let_def)
  next
    case False
    let ?s6 = "release EventCallbacksLock
                 (foldl (\<lambda>s c. log_effect (RegisterEventCallback (h_id d) c) s)
                    (acquire EventCallbacksLock
                       (release DevicesLock
                          ((acquire DevicesLock s)
                             \<lparr>devices := AList.update device_id d (devices s)\<rparr>)))
                    (event_callbacks s))"
    have f: "fire_event fuel env (DeviceOnlineStatusEvent d (h_online d)) ?s6 = Some s'"
      using assms False by (simp add: add_if_new_def Let_def split: option.splits)
    have "observe fired (trace ?s6) = observe fired (trace s)"
      by (simp add: foldl_register_callbacks observe_def)
    with fire_event_fired [OF f] False show ?thesis by simp
  qed
qed

text \<open>
  A full device whose uuid is a key of the directory is ignored: the directory is left as it
  is and no event is fired.
\<close>

lemma known_device_is_ignored:
  assumes "deviceType dev = Some t" and "uuid dev = Some u"
    and "u \<in> fst ` set (devices s)"
    and "handle_device_discovered fuel env dev parent_hub s = Some (Inr (d, s'))"
  shows "devices s' = devices s \<and> observe fired (trace s') = observe fired (trace s)"
proof (cases "build_wrapper env t u dev")
  case None
  then show ?thesis
    using assms by (auto simp: handle_device_discovered_def construct_def add_if_new_def)
next
  case (Some h)
  let ?s1 = "(log_effect (BuildWrapper t u) s)\<lparr>allocated := Suc (allocated s)\<rparr>"
  have a: "add_if_new fuel env u u (Some (h\<lparr>h_id := allocated s\<rparr>)) ?s1 = Some (Inr (d, s'))"
    using assms Some by (simp add: handle_device_discovered_def construct_def)
  from add_if_new_stores [OF a] assms(3) show ?thesis by simp
qed

text \<open>
  A sub-device is tested under its local identifier and stored under the composite key:
  whenever the local identifier is not itself a key, the object just built is stored under
  the composite key, replacing what was there, and its event is fired.
\<close>

lemma subdevice_is_stored_again:
  assumes "\<not> (deviceType dev \<noteq> None \<and> uuid dev \<noteq> None)"
    and "subDeviceType dev = Some t" and "subDeviceId dev = Some i"
    and "build_subdevice_wrapper env t i hub dev = Some h"
    and "i \<notin> fst ` set (devices s)"
    and "handle_device_discovered fuel env dev (Some hub) s = Some (Inr (d, s'))"
  shows "map_of (devices s') (h_uuid hub @ '':'' @ i) = Some (h\<lparr>h_id := allocated s\<rparr>)
       \<and> observe fired (trace s')
           = observe fired (trace s)
             @ [DeviceOnlineStatusEvent (h\<lparr>h_id := allocated s\<rparr>) (h_online h)]"
proof -
  let ?s1 = "(log_effect (BuildSubdeviceWrapper t i (h_id hub)) s)
               \<lparr>allocated := Suc (allocated s)\<rparr>"
  have a: "add_if_new fuel env i (h_uuid hub @ '':'' @ i) (Some (h\<lparr>h_id := allocated s\<rparr>)) ?s1
             = Some (Inr (d, s'))"
    using assms by (auto simp: handle_device_discovered_def construct_def split: if_splits)
  from add_if_new_stores [OF a] assms(5) show ?thesis
    by (simp add: update_conv')
qed

lemma composite_keys_differ: "u1 \<noteq> u2 \<Longrightarrow> u1 @ '':'' @ i \<noteq> u2 @ '':'' @ i"
  by simp

text \<open>
  Claim C1 does not hold of the code. The listing holds one hub, which reports one
  sub-device. The first pass stores \<open>H1\<close> and \<open>H1:S1\<close>. The second pass, on the same
  listing, keeps two entries but stores another object under \<open>H1:S1\<close> and fires the
  event for it once more: the test of line 186 looks up the local identifier \<open>S1\<close>,
  which is never a key, where the comment above it ("already in the list of handled
  devices ... Otherwise, ignore it") and the store of line 188 mean the composite key.
\<close>

theorem rediscovery_announces_subdevice_again:
  "discover_devices 5 hub_world False init = Some (Inr after_first_pass)
   \<and> discover_devices 5 hub_world False after_first_pass = Some (Inr after_second_pass)
   \<and> length (devices after_second_pass) = length (devices after_first_pass)
   \<and> devices after_second_pass \<noteq> devices after_first_pass
   \<and> map fst (devices after_first_pass) = [''H1'', ''H1:S1'']
   \<and> observe fired (drop (length (trace after_first_pass)) (trace after_second_pass))
       = [DeviceOnlineStatusEvent ((valve_object ''mts100v3'' ''S1'')\<lparr>h_id := 3\<rparr>) True]"
  by (simp add: first_pass second_pass after_first_pass_devices after_second_pass_devices
        observe_map_fst second_pass_trace valve_object_def)

text \<open>
  Claim C2 does not hold of the code, by the same test of line 186: the identity
  \<open>H1:S1\<close> is mapped to object 1 after the first pass and to object 3 after the second,
  which met the same sub-device descriptor. (For a full device the mapping is stable, see
  \<open>known_device_is_ignored\<close>.)
\<close>

theorem rediscovery_replaces_subdevice_handle:
  "map_option h_id (map_of (devices after_first_pass) ''H1:S1'') = Some 1
   \<and> list_hub_subdevices hub_world ''H1'' = [subdevice_descr ''S1'']
   \<and> discover_devices 5 hub_world False after_first_pass = Some (Inr after_second_pass)
   \<and> map_option h_id (map_of (devices after_second_pass) ''H1:S1'') = Some 3"
  by (simp add: second_pass after_first_pass_devices after_second_pass_devices
        hub_world_fields)

text \<open>
  Claim C5 does not hold of the code as it is stated, by the same test of line 186. The
  composite keys of two hubs with different uuids differ (\<open>composite_keys_differ\<close>), and
  the sub-devices are stored under them when the local identifier is not itself a key
  (\<open>subdevice_is_stored_again\<close>, and \<open>two_hubs\<close> for an example). But when the local
  identifier is a key of the directory, here the uuid \<open>A\<close> of the first hub, the two
  sub-devices are taken for known devices and the directory ends with the two hubs only.
\<close>

theorem local_id_clash_loses_subdevices:
  "list_devices clash_world = [device_descr ''msh300'' ''A'', device_descr ''msh300'' ''B'']
   \<and> list_hub_subdevices clash_world ''A'' = [subdevice_descr ''A'']
   \<and> list_hub_subdevices clash_world ''B'' = [subdevice_descr ''A'']
   \<and> map_option (map_sum id (map fst \<circ> devices)) (discover_devices 5 clash_world False init)
       = Some (Inr [''A'', ''B''])"
  by (simp add: clash_world_def world_defs run_defs)

section \<open>Hub sub-devices\<close>

text \<open>
  A fan-out asks nothing of the HTTP client or of the factories, so the calls of a pass to
  them are those of the handler and of the loops around it, step by step.
\<close>

lemma fire_loop_calls:
  "fire_loop fuel env ev i s = Some s' \<Longrightarrow>
   observe discovery_call (trace s') = observe discovery_call (trace s)"
proof (induction fuel arbitrary: i s)
  case 0
  then show ?case by (simp add: fire_loop.simps split: if_splits)
next
  case (Suc fuel)
  show ?case
  proof (cases "i < length (event_callbacks s)")
    case False
    then show ?thesis using Suc.prems by (simp add: fire_loop.simps)
  next
    case True
    let ?c = "event_callbacks s ! i"
    let ?s2 = "foldl (\<lambda>s a. perform a s) (log_effect (InvokeCallback ?c ev) s)
                 (fst (callback_body env ?c ev))"
    let ?s3 = "case snd (callback_body env ?c ev) of None \<Rightarrow> ?s2
               | Some e \<Rightarrow> log_effect (LogException e) ?s2"
    have step: "fire_loop fuel env ev (Suc i) ?s3 = Some s'"
      using Suc.prems(1) True by (subst (asm) fire_loop.simps) (simp add: Let_def)
    have "observe discovery_call (trace ?s3) = observe discovery_call (trace s)"
      by (simp split: option.splits)
    with Suc.IH [OF step] show ?thesis by simp
  qed
qed

lemma add_if_new_calls:
  assumes "add_if_new fuel env d_id device_id device s = Some (Inr (r, s'))"
  shows "observe discovery_call (trace s') = observe discovery_call (trace s)"
proof (cases "device = None \<or> d_id \<in> fst ` set (devices s)")
  case True
  then show ?thesis
    using assms by (cases device) (simp_all add: add_if_new_def Let_def)
next
  case False
  then obtain d where d: "device = Some d" by auto
  let ?s6 = "release EventCallbacksLock
               (foldl (\<lambda>s c. log_effect (RegisterEventCallback (h_id d) c) s)
                  (acquire EventCallbacksLock
                     (release DevicesLock
                        ((acquire DevicesLock s)
                           \<lparr>devices := AList.update device_id d (devices s)\<rparr>)))
                  (event_callbacks s))"
  have f: "fire_event fuel env (DeviceOnlineStatusEvent d (h_online d)) ?s6 = Some s'"
    using assms False d by (simp add: add_if_new_def Let_def split: option.splits)
  then have "fire_loop fuel env (DeviceOnlineStatusEvent d (h_online d)) 0
               (log_effect (FireEvent (DeviceOnlineStatusEvent d (h_online d))) ?s6) = Some s'"
    by (simp add: fire_event_def)
  from fire_loop_calls [OF this]
  show ?thesis by (simp add: foldl_register_callbacks observe_def)
qed

lemma handle_device_discovered_returns:
  assumes "handle_device_discovered fuel env dev parent_hub s = Some (Inr (d, s'))"
  shows "d = object_built env dev parent_hub (allocated s)"
    and "allocated s' = objects_after env dev parent_hub (allocated s)"
    and "devices s' = directory_after env dev parent_hub (allocated s) (devices s)"
    and "observe discovery_call (trace s')
           = observe discovery_call (trace s) @ handler_call dev parent_hub"
proof -
  have all: "d = object_built env dev parent_hub (allocated s)
     \<and> allocated s' = objects_after env dev parent_hub (allocated s)
     \<and> devices s' = directory_after env dev parent_hub (allocated s) (devices s)
     \<and> observe discovery_call (trace s')
           = observe discovery_call (trace s) @ handler_call dev parent_hub"
  proof (cases "deviceType dev \<noteq> None \<and> uuid dev \<noteq> None")
    case True
    let ?t = "the (deviceType dev)" and ?u = "the (uuid dev)"
    obtain device s1 where c:
      "construct (build_wrapper env ?t ?u dev) (log_effect (BuildWrapper ?t ?u) s) = (device, s1)"
      by (cases "construct (build_wrapper env ?t ?u dev) (log_effect (BuildWrapper ?t ?u) s)")
    have a: "add_if_new fuel env ?u ?u device s1 = Some (Inr (d, s'))"
      using assms True c by (simp add: handle_device_discovered_def Let_def)
    have dev: "device = object_built env dev parent_hub (allocated s)"
      using c True by (auto simp: construct_def object_built_def split: option.splits)
    have s1: "allocated s1 = objects_after env dev parent_hub (allocated s)"
        "devices s1 = devices s"
        "observe discovery_call (trace s1)
           = observe discovery_call (trace s) @ handler_call dev parent_hub"
      using c True
      by (auto simp: construct_def object_built_def objects_after_def handler_call_def
            split: option.splits)
    have dir: "devices s' = directory_after env dev parent_hub (allocated s) (devices s)"
    proof (cases device)
      case None
      then show ?thesis
        using a dev s1(2) by (simp add: add_if_new_def directory_after_def)
    next
      case (Some x)
      from add_if_new_stores(1) [of fuel env ?u ?u x s1 d s'] a Some
      show ?thesis using dev True s1(2) by (simp add: directory_after_def)
    qed
    show ?thesis
      using add_if_new_grows(2,3) [OF a] add_if_new_calls [OF a] dev s1 dir by simp
  next
    case False
    note not_full = this
    show ?thesis
    proof (cases "subDeviceType dev \<noteq> None \<and> subDeviceId dev \<noteq> None")
      case False
      then show ?thesis
        using assms not_full
        by (auto simp: handle_device_discovered_def object_built_def objects_after_def
              directory_after_def handler_call_def)
    next
      case True
      then obtain hub where hub: "parent_hub = Some hub"
        using assms not_full by (cases parent_hub) (auto simp: handle_device_discovered_def)
      let ?t = "the (subDeviceType dev)" and ?i = "the (subDeviceId dev)"
      let ?e = "BuildSubdeviceWrapper ?t ?i (h_id hub)"
      obtain device s1 where c:
        "construct (build_subdevice_wrapper env ?t ?i hub dev) (log_effect ?e s) = (device, s1)"
        by (cases "construct (build_subdevice_wrapper env ?t ?i hub dev) (log_effect ?e s)")
      have a: "add_if_new fuel env ?i (h_uuid hub @ '':'' @ ?i) device s1 = Some (Inr (d, s'))"
        using assms True not_full hub c
        by (auto simp: handle_device_discovered_def Let_def split: if_splits)
      have dev: "device = object_built env dev parent_hub (allocated s)"
        using c True not_full hub
        by (auto simp: construct_def object_built_def split: option.splits)
      have s1: "allocated s1 = objects_after env dev parent_hub (allocated s)"
          "devices s1 = devices s"
          "observe discovery_call (trace s1)
             = observe discovery_call (trace s) @ handler_call dev parent_hub"
        using c True not_full hub
        by (auto simp: construct_def object_built_def objects_after_def handler_call_def
              split: option.splits)
      have dir: "devices s' = directory_after env dev parent_hub (allocated s) (devices s)"
      proof (cases device)
        case None
        then show ?thesis
          using a dev s1(2) by (simp add: add_if_new_def directory_after_def)
      next
        case (Some x)
        from add_if_new_stores(1) [of fuel env ?i "h_uuid hub @ '':'' @ ?i" x s1 d s'] a Some
        show ?thesis using dev not_full hub s1(2) by (auto simp: directory_after_def)
      qed
      show ?thesis
        using add_if_new_grows(2,3) [OF a] add_if_new_calls [OF a] dev s1 dir by simp
    qed
  qed
  from all show "d = object_built env dev parent_hub (allocated s)"
    and "allocated s' = objects_after env dev parent_hub (allocated s)"
    and "devices s' = directory_after env dev parent_hub (allocated s) (devices s)"
    and "observe discovery_call (trace s')
           = observe discovery_call (trace s) @ handler_call dev parent_hub"
    by simp_all
qed

lemma handle_subdevices_returns:
  "handle_subdevices fuel env hub subs s = Some (Inr s') \<Longrightarrow>
   allocated s' = objects_after_subdevices env hub subs (allocated s)
   \<and> devices s' = directory_after_subdevices env hub subs (allocated s) (devices s)
   \<and> observe discovery_call (trace s')
       = observe discovery_call (trace s) @ subdevice_calls hub subs"
proof (induction subs arbitrary: s)
  case Nil
  then show ?case by simp
next
  case (Cons subdev rest)
  from Cons.prems obtain d s1 where
    h: "handle_device_discovered fuel env subdev (Some hub) s = Some (Inr (d, s1))"
    and r: "handle_subdevices fuel env hub rest s1 = Some (Inr s')"
    by (auto split: option.splits sum.splits)
  from handle_device_discovered_returns(2-4) [OF h] Cons.IH [OF r]
  show ?case by simp
qed

lemma discover_loop_returns:
  "discover_loop fuel env online_only devs s = Some (Inr s') \<Longrightarrow>
   devices s' = pass_directory env online_only devs (allocated s) (devices s)
   \<and> observe discovery_call (trace s')
       = observe discovery_call (trace s) @ pass_calls env online_only devs (allocated s)"
proof (induction devs arbitrary: s)
  case Nil
  then show ?case by simp
next
  case (Cons dev rest)
  from Cons.prems obtain online where online: "onlineStatus dev = Some online"
    by (cases "onlineStatus dev") auto
  show ?case
  proof (cases "online_only \<and> online \<noteq> 1")
    case True
    then have "discover_loop fuel env online_only rest s = Some (Inr s')"
      using Cons.prems online by simp
    from Cons.IH [OF this] show ?thesis
      using True online by simp
  next
    case False
    then have keep: "\<not> (online_only \<and> onlineStatus dev \<noteq> Some 1)"
      using online by simp
    from False Cons.prems online obtain d s1 where
      h: "handle_device_discovered fuel env dev None s = Some (Inr (d, s1))"
      by (auto split: option.splits sum.splits)
    note ret = handle_device_discovered_returns [OF h]
    show ?thesis
    proof (cases "\<exists>hub. d = Some hub \<and> isinstance hub ''GenericHub''")
      case False
      then have r: "discover_loop fuel env online_only rest s1 = Some (Inr s')"
        using Cons.prems online \<open>\<not> (online_only \<and> online \<noteq> 1)\<close> h
        by (cases d) auto
      show ?thesis
      proof (cases d)
        case None
        then have ob: "object_built env dev None (allocated s) = None"
          using ret(1) by simp
        show ?thesis
          using Cons.IH [OF r] ret(2-4) keep
          by (auto simp: ob objects_after_def directory_after_def)
      next
        case (Some x)
        then have ob: "object_built env dev None (allocated s) = Some x"
          using ret(1) by simp
        have "\<not> isinstance x ''GenericHub''" using False Some by simp
        then show ?thesis
          using Cons.IH [OF r] ret(2-4) keep
          by (auto simp: ob objects_after_def)
      qed
    next
      case True
      then obtain hub where hub: "d = Some hub" "isinstance hub ''GenericHub''" by auto
      let ?subs = "list_hub_subdevices env (h_uuid hub)"
      let ?s1' = "log_effect (ListHubSubdevices (h_uuid hub)) s1"
      from Cons.prems online \<open>\<not> (online_only \<and> online \<noteq> 1)\<close> h hub
      obtain s2 where
        subs: "handle_subdevices fuel env hub ?subs ?s1' = Some (Inr s2)"
        and r: "discover_loop fuel env online_only rest s2 = Some (Inr s')"
        by (auto split: option.splits sum.splits)
      from handle_subdevices_returns [OF subs]
      have s2: "allocated s2 = objects_after_subdevices env hub ?subs (allocated s1)"
        "devices s2 = directory_after_subdevices env hub ?subs (allocated s1) (devices s1)"
        "observe discovery_call (trace s2)
           = observe discovery_call (trace s1) @ ListHubSubdevices (h_uuid hub)
               # subdevice_calls hub ?subs"
        by simp_all
      have ob: "object_built env dev None (allocated s) = Some hub"
        using ret(1) hub by simp
      have a1: "allocated s1 = Suc (allocated s)"
        using ret(2) by (simp add: ob objects_after_def)
      show ?thesis
        using Cons.IH [OF r] ret(3,4) hub(2) keep s2 a1 by (auto simp: ob)
    qed
  qed
qed

text \<open>
  Claim C3, as amended. The sub-devices of a hub are queried, and handled, whether or not
  the hub's object was stored in this pass. In a pass that returns, the sub-device listings
  asked of the collaborator are, in order, the uuids of the objects built for the
  descriptors of the listing that pass the online filter, carry the full-device shape and
  for which the factory builds a hub: the directory plays no part. Every parent handed to
  the sub-device factory in the pass is an object built in that same pass (its identity is
  not below the number of objects built before the pass), not an object stored earlier.
  The calls of the pass to the HTTP client and to the factories are those of
  \<open>pass_calls\<close>: for each such descriptor, the object is built, its sub-devices are
  listed, and the handler is run on every sub-device descriptor of that listing, in order,
  with the object just built for the hub as parent. The directory the pass leaves is that
  of \<open>pass_directory\<close>: each object built is stored unless the identifier tested is a
  key already.
\<close>

theorem hub_queries_of_a_pass:
  assumes "discover_devices fuel env online_only s = Some (Inr s')"
  shows "observe hub_query (trace s')
           = observe hub_query (trace s)
             @ List.map_filter (queried_hub env online_only) (list_devices env)
       \<and> list_all (\<lambda>p. allocated s \<le> p)
           (observe subdevice_parent (drop (length (trace s)) (trace s')))
       \<and> observe discovery_call (drop (length (trace s)) (trace s'))
           = ListDevices # pass_calls env online_only (list_devices env) (allocated s)
       \<and> devices s'
           = pass_directory env online_only (list_devices env) (allocated s) (devices s)"
proof -
  from discover_devices_entries(1) [OF assms] obtain new where
    n: "trace s' = trace s @ (ListDevices, held s) # new"
       "list_all (discovery_entry (held s) (\<lambda>p. allocated s \<le> p)) new"
       "observe hub_query new = List.map_filter (queried_hub env online_only) (list_devices env)"
    by blast
  from assms have "discover_loop fuel env online_only (list_devices env)
                     (log_effect ListDevices s) = Some (Inr s')"
    by (simp add: discover_devices_def)
  from discover_loop_returns [OF this]
  have r: "devices s'
             = pass_directory env online_only (list_devices env) (allocated s) (devices s)"
    "observe discovery_call (trace s')
       = observe discovery_call (trace s) @ ListDevices
           # pass_calls env online_only (list_devices env) (allocated s)"
    by simp_all
  have "observe discovery_call (drop (length (trace s)) (trace s'))
          = ListDevices # pass_calls env online_only (list_devices env) (allocated s)"
    using r(2) n(1) by simp
  then show ?thesis
    using n r(1) discovery_entries_parents [OF n(2)] by simp
qed

text \<open>
  The claim as it was stated fails: the hub \<open>H1\<close> is in the directory before the second
  pass; the second pass asks for its sub-devices again and builds the sub-device with
  object 2 as parent, the duplicate hub object that is not stored (the directory holds
  objects 0 and 3).
\<close>

theorem known_hub_is_queried_again:
  "map_of (devices after_first_pass) ''H1'' = Some ((hub_object ''H1'')\<lparr>h_id := 0\<rparr>)
   \<and> discover_devices 5 hub_world False after_first_pass = Some (Inr after_second_pass)
   \<and> observe hub_query (drop (length (trace after_first_pass)) (trace after_second_pass))
       = [''H1'']
   \<and> observe subdevice_parent
        (drop (length (trace after_first_pass)) (trace after_second_pass)) = [2]
   \<and> map (h_id \<circ> snd) (devices after_second_pass) = [0, 3]"
  by (simp add: second_pass after_first_pass_devices after_second_pass_devices
        observe_map_fst second_pass_trace)

lemma after_first_pass_allocated: "allocated after_first_pass = 2"
  by (simp add: after_first_pass_def returned_def hub_world_def world_defs run_defs)

lemma hub_world_subdevice_factory: "build_subdevice_wrapper hub_world = subdevice_factory"
  by (simp add: hub_world_def world_def)

lemmas plan_defs = handler_call_def object_built_def objects_after_def directory_after_def

theorem hub_queries_of_a_pass_witness:
  "discover_devices 5 hub_world False after_first_pass = Some (Inr after_second_pass)
   \<and> observe hub_query (trace after_second_pass)
       = observe hub_query (trace after_first_pass) @ [''H1'']
   \<and> list_all (\<lambda>p. allocated after_first_pass \<le> p)
        (observe subdevice_parent
           (drop (length (trace after_first_pass)) (trace after_second_pass)))
   \<and> observe discovery_call (drop (length (trace after_first_pass)) (trace after_second_pass))
       = [ListDevices, BuildWrapper ''msh300'' ''H1'', ListHubSubdevices ''H1'',
          BuildSubdeviceWrapper ''mts100v3'' ''S1'' 2]
   \<and> devices after_second_pass
       = [(''H1'', (hub_object ''H1'')\<lparr>h_id := 0\<rparr>),
          (''H1:S1'', (valve_object ''mts100v3'' ''S1'')\<lparr>h_id := 3\<rparr>)]"
  using hub_queries_of_a_pass [OF second_pass]
  by (simp add: second_pass hub_world_fields hub_world_subdevice_factory factory_def
        subdevice_factory_def hub_object_def valve_object_def device_descr_def
        subdevice_descr_def queried_hub_def List.map_filter_simps isinstance_def plan_defs
        after_first_pass_allocated after_first_pass_devices)

section \<open>Routing a push notification\<close>

text \<open>
  Claim C7, as amended. For a message that carries a header and a payload, and whose header
  carries an origin path (\<^verbatim>\<open>from\<close>) with at least three segments separated by
  \<open>/\<close>, the target identity is the third segment. If it is a key of the
  directory and the header has a namespace, the namespace, the payload and the self-origin
  flag are delivered to that object and nothing else happens. If it is not a key, the
  router does exactly what one discovery pass with \<^verbatim>\<open>online_only=False\<close> does and
  ends as the pass ends: the collaborator was asked for the device list once and nothing
  was delivered to any object, whether or not the identity is in the directory afterwards.
  The router raises nothing of its own then; an error raised by the pass is the router's
  error.
\<close>

theorem notification_routing:
  assumes "header msg = Some hdr" and "payload msg = Some pl"
    and "map_of hdr ''from'' = Some origin"
    and "2 < length (py_split (CHR ''/'') origin)"
  shows "(map_of (devices s) (py_split (CHR ''/'') origin ! 2) = Some d
            \<and> map_of hdr ''namespace'' = Some namespace
          \<longrightarrow> dispatch_push_notification fuel env msg from_myself s
                = Some (Inr (log_effect
                     (HandlePushNotification (h_id d) namespace pl from_myself) s)))
       \<and> (map_of (devices s) (py_split (CHR ''/'') origin ! 2) = None
          \<longrightarrow> dispatch_push_notification fuel env msg from_myself s
                = discover_devices fuel env False s
              \<and> (dispatch_push_notification fuel env msg from_myself s = Some r
                  \<longrightarrow> observe listing (trace (manager_after r))
                        = observe listing (trace s) @ [()]
                      \<and> observe pushed (trace (manager_after r)) = observe pushed (trace s)))"
proof (intro conjI impI)
  assume "map_of (devices s) (py_split (CHR ''/'') origin ! 2) = Some d
            \<and> map_of hdr ''namespace'' = Some namespace"
  then show "dispatch_push_notification fuel env msg from_myself s
                = Some (Inr (log_effect
                     (HandlePushNotification (h_id d) namespace pl from_myself) s))"
    using assms by (simp add: dispatch_push_notification_def Let_def)
next
  assume absent: "map_of (devices s) (py_split (CHR ''/'') origin ! 2) = None"
  then show eq: "dispatch_push_notification fuel env msg from_myself s
                   = discover_devices fuel env False s"
    using assms by (simp add: dispatch_push_notification_def Let_def)
  assume "dispatch_push_notification fuel env msg from_myself s = Some r"
  then have "discover_devices fuel env False s = Some r"
    using eq by simp
  from discover_devices_leaves(1) [OF this] obtain new where
    n: "trace (manager_after r) = trace s @ (ListDevices, held s) # new"
       "list_all (discovery_entry (held s) (\<lambda>p. allocated s \<le> p)) new"
    by blast
  show "observe listing (trace (manager_after r)) = observe listing (trace s) @ [()]"
    and "observe pushed (trace (manager_after r)) = observe pushed (trace s)"
    using n(1) discovery_entries_silent [OF n(2)] by simp_all
qed

lemma split_hub_origin:
  "py_split (CHR ''/'') ''/appliance/H1/publish'' = ['''', ''appliance'', ''H1'', ''publish'']"
  by code_simp
lemma split_unknown_origin:
  "py_split (CHR ''/'') ''/appliance/X9/publish'' = ['''', ''appliance'', ''X9'', ''publish'']"
  by code_simp
lemma split_short_origin: "py_split (CHR ''/'') ''appliance'' = [''appliance'']"
  by code_simp

lemma init_fields:
  "devices init = []" "event_callbacks init = []" "held init = []" "allocated init = 0"
  "trace init = []"
  by (simp_all add: init_def)

lemmas push_defs = push_def plug_world_def one_observer_def orphan_descr_def

theorem notification_routing_witness:
  "header (push ''/appliance/H1/publish'')
     = Some [(''from'', ''/appliance/H1/publish''), (''namespace'', ''Appliance.Control.ToggleX'')]
   \<and> 2 < length (py_split (CHR ''/'') ''/appliance/H1/publish'')
   \<and> py_split (CHR ''/'') ''/appliance/H1/publish'' ! 2 = ''H1''
   \<and> dispatch_push_notification 5 hub_world (push ''/appliance/H1/publish'') True lamp_and_hub
       = Some (Inr (log_effect
            (HandlePushNotification 1 ''Appliance.Control.ToggleX'' [(''onoff'', ''1'')] True)
            lamp_and_hub))
   \<and> map_of (devices init) (py_split (CHR ''/'') ''/appliance/H1/publish'' ! 2) = None
   \<and> dispatch_push_notification 5 hub_world (push ''/appliance/H1/publish'') False init
       = Some (Inr after_first_pass)
   \<and> observe listing (trace after_first_pass) = [()]
   \<and> observe pushed (trace after_first_pass) = []"
  using notification_routing
          [of "push ''/appliance/H1/publish''"
              "[(''from'', ''/appliance/H1/publish''), (''namespace'', ''Appliance.Control.ToggleX'')]"
              "[(''onoff'', ''1'')]" "''/appliance/H1/publish''" lamp_and_hub
              "(hub_object ''H1'')\<lparr>h_id := 1\<rparr>" "''Appliance.Control.ToggleX''"
              5 hub_world True "Inr after_first_pass"]
        notification_routing
          [of "push ''/appliance/H1/publish''"
              "[(''from'', ''/appliance/H1/publish''), (''namespace'', ''Appliance.Control.ToggleX'')]"
              "[(''onoff'', ''1'')]" "''/appliance/H1/publish''" init
              "(hub_object ''H1'')\<lparr>h_id := 1\<rparr>" "''Appliance.Control.ToggleX''"
              5 hub_world False "Inr after_first_pass"]
  by (simp add: push_def lamp_and_hub_def first_pass init_fields hub_object_def
        plug_object_def split_hub_origin first_pass_trace observe_map_fst del: py_split.simps)

text \<open>
  The claim as it was stated fails: an origin path with fewer than three segments makes
  the router raise \<^verbatim>\<open>IndexError\<close>, and for an unknown identity the error of the
  discovery pass (here a sub-device descriptor in the top-level listing) is raised by the
  router. A message without a header, without a payload or without an origin in its header
  makes the router raise \<^verbatim>\<open>KeyError\<close> before it looks the identity up: for the
  unknown identity \<open>X9\<close> no pass is run. For the known identity \<open>H1\<close>, a header
  without a namespace makes it raise \<^verbatim>\<open>KeyError\<close> and nothing is delivered.
\<close>

theorem routing_raises_counterexample:
  "dispatch_push_notification 5 hub_world (push ''appliance'') False init
       = Some (Inl (IndexError, init))
   \<and> map_of (devices init) (py_split (CHR ''/'') ''/appliance/X9/publish'' ! 2) = None
   \<and> dispatch_push_notification 5 (world [orphan_descr] no_subdevices quiet True)
        (push ''/appliance/X9/publish'') False init
       = Some (Inl (AttributeError, log_effect ListDevices init))
   \<and> dispatch_push_notification 5 hub_world (push_without_payload ''/appliance/X9/publish'')
        False init
       = Some (Inl (KeyError ''payload'', init))
   \<and> dispatch_push_notification 5 hub_world push_without_header False init
       = Some (Inl (KeyError ''header'', init))
   \<and> dispatch_push_notification 5 hub_world push_without_origin False init
       = Some (Inl (KeyError ''from'', init))
   \<and> map_of (devices lamp_and_hub) (py_split (CHR ''/'') ''/appliance/H1/publish'' ! 2)
       = Some ((hub_object ''H1'')\<lparr>h_id := 1\<rparr>)
   \<and> dispatch_push_notification 5 hub_world (push_without_namespace ''/appliance/H1/publish'')
        True lamp_and_hub
       = Some (Inl (KeyError ''namespace'', lamp_and_hub))"
  by (simp add: push_defs push_without_payload_def push_without_header_def
        push_without_origin_def push_without_namespace_def lamp_and_hub_def
        hub_world_def world_defs run_defs split_unknown_origin split_hub_origin
        split_short_origin del: py_split.simps)

section \<open>Locks held across calls\<close>










end
